theory Spec2Isabelle
  imports Complex_Main "HOL-Library.Multiset"
begin

section \<open>fusenet: stability selection of the regularization parameter\<close>

text \<open>
  A shallow embedding of \<^verbatim>\<open>src/fusenet/model_selection/stability.py\<close> (class
  \<^verbatim>\<open>Stability\<close>, Python 2 with numpy and scipy).

  Conventions of the embedding:
  \<^item> a Python float is the \<^typ>\<open>real\<close> number it denotes; the inputs (dependency scores,
    regularization values, \<^verbatim>\<open>beta\<close>, \<^verbatim>\<open>thres\<close>) are finite numbers. Comparing two floats,
    taking an absolute value or a minimum and sorting are exact on floats, so they are the
    operations of the reals. Adding, subtracting, multiplying, dividing and summing round, and
    the rounded result can decide a branch (the closeness test of line 50, the comparison of
    line 95): these operations are a parameter \<open>ops\<close> of the model, a record of functions on
    the reals, about which nothing is assumed. A statement proved for every \<open>ops\<close> holds for
    the arithmetic of the machine; \<open>exact_ops\<close> is the arithmetic without rounding. The one place
    where the source itself produces a non-number, the division \<^verbatim>\<open>0.0 / 0.0\<close> in
    \<^verbatim>\<open>_adj_var\<close>, is kept as the value \<open>NaN\<close> of the type \<open>npfloat\<close>;
  \<^item> a two-dimensional numpy array is a record of its shape and its indexing function
    (the values of the function outside the shape are never read);
  \<^item> the entries of an integer array (\<^verbatim>\<open>dtype=np.int\<close>) are 0 or 1 and their sums run over
    the subsamples, far from the range of a machine integer: they are of type \<^typ>\<open>int\<close>;
  \<^item> a Python \<^verbatim>\<open>dict\<close> is an association list with distinct keys, listed in the order
    in which the dict is iterated; \<^verbatim>\<open>d[k] = v\<close> replaces the value of an existing key;
  \<^item> an exception is a value \<open>Inl e\<close> of the sum type \<open>error + 'a\<close>;
  \<^item> the calls of \<^verbatim>\<open>warnings.warn\<close> and \<^verbatim>\<open>print\<close> are recorded as a list of events.
    The \<^verbatim>\<open>RuntimeWarning\<close> that numpy itself issues when it divides \<^verbatim>\<open>0.0\<close> by
    \<^verbatim>\<open>0.0\<close> is an effect of the library, not of this module, and is not recorded.
\<close>

subsection \<open>Exceptions, floats, events\<close>

datatype error =
    AssertNotQuadratic    \<comment> \<open>\<^verbatim>\<open>AssertionError\<close> of line 49, 'Dependency matrix is not quadratic'\<close>
  | AssertMissing         \<comment> \<open>\<^verbatim>\<open>AssertionError\<close> of line 78, 'Dependency matrices ... are missing.'\<close>
  | TypeError             \<comment> \<open>\<^verbatim>\<open>reduce()\<close> of an empty sequence with no initial value\<close>
  | ValueError            \<comment> \<open>numpy: operands could not be broadcast together; \<^verbatim>\<open>np.min\<close> of an empty list\<close>
  | IndexError            \<comment> \<open>list or array index out of range\<close>

datatype npfloat = Fin real | NaN

text \<open>
  The rounding operations on floats: \<^verbatim>\<open>x + y\<close>, \<^verbatim>\<open>x - y\<close>, \<^verbatim>\<open>x * y\<close>, \<^verbatim>\<open>x / y\<close> with
  \<^verbatim>\<open>y\<close> not zero, \<^verbatim>\<open>np.sum\<close> of a one-dimensional array (whose order of summation depends on
  the version of numpy), and the floats that the literals \<^verbatim>\<open>1e-08\<close> and \<^verbatim>\<open>1e-05\<close>, the default
  tolerances of \<^verbatim>\<open>np.allclose\<close>, denote.
\<close>

record float_ops =
  fadd :: "real \<Rightarrow> real \<Rightarrow> real"
  fsub :: "real \<Rightarrow> real \<Rightarrow> real"
  fmul :: "real \<Rightarrow> real \<Rightarrow> real"
  fdiv :: "real \<Rightarrow> real \<Rightarrow> real"
  fsum :: "real list \<Rightarrow> real"
  atol :: real
  rtol :: real

definition exact_ops :: float_ops where
  "exact_ops = \<lparr>fadd = (+), fsub = (-), fmul = (*), fdiv = (/), fsum = sum_list,
             atol = 1 / 100000000, rtol = 1 / 100000\<rparr>"

datatype event =
    Warn real    \<comment> \<open>\<^verbatim>\<open>warnings.warn('The optimal value ... Value %4.7f is set.' % rho_opt)\<close>\<close>
  | Print real   \<comment> \<open>\<^verbatim>\<open>print 'Selected regularization: %4.7f' % rho_opt\<close>\<close>

subsection \<open>numpy arrays\<close>

record 'a ndarray =
  shape0 :: nat
  shape1 :: nat
  entry :: "nat \<Rightarrow> nat \<Rightarrow> 'a"

text \<open>The array written as a list of rows, for concrete inputs.\<close>

definition of_rows :: "'a list list \<Rightarrow> 'a ndarray" where
  "of_rows rs = \<lparr>shape0 = length rs, shape1 = (case rs of [] \<Rightarrow> 0 | r # _ \<Rightarrow> length r),
                 entry = (\<lambda>i j. rs ! i ! j)\<rparr>"

text \<open>\<^verbatim>\<open>np.abs(a)\<close>, \<^verbatim>\<open>a > s\<close> with a scalar, \<^verbatim>\<open>a.T\<close>, \<^verbatim>\<open>np.array(a, dtype=np.int)\<close> of a
  boolean array, \<^verbatim>\<open>a / s\<close> of an integer array by a float.\<close>

definition np_abs :: "real ndarray \<Rightarrow> real ndarray" where
  "np_abs a = \<lparr>shape0 = shape0 a, shape1 = shape1 a, entry = (\<lambda>i j. \<bar>entry a i j\<bar>)\<rparr>"

definition np_gt :: "real ndarray \<Rightarrow> real \<Rightarrow> bool ndarray" where
  "np_gt a s = \<lparr>shape0 = shape0 a, shape1 = shape1 a, entry = (\<lambda>i j. entry a i j > s)\<rparr>"

definition np_T :: "'a ndarray \<Rightarrow> 'a ndarray" where
  "np_T a = \<lparr>shape0 = shape1 a, shape1 = shape0 a, entry = (\<lambda>i j. entry a j i)\<rparr>"

definition np_array_int :: "bool ndarray \<Rightarrow> int ndarray" where
  "np_array_int a = \<lparr>shape0 = shape0 a, shape1 = shape1 a, entry = (\<lambda>i j. if entry a i j then 1 else 0)\<rparr>"

definition np_div_scalar :: "float_ops \<Rightarrow> int ndarray \<Rightarrow> real \<Rightarrow> real ndarray" where
  "np_div_scalar ops a s =
     \<lparr>shape0 = shape0 a, shape1 = shape1 a, entry = (\<lambda>i j. fdiv ops (real_of_int (entry a i j)) s)\<rparr>"

text \<open>
  Binary element-wise operations (\<^verbatim>\<open>np.add\<close>, \<^verbatim>\<open>np.maximum\<close>) broadcast their operands:
  along each axis the two lengths must be equal or one of them must be 1, and an axis of
  length 1 is read at index 0 throughout. Otherwise numpy raises \<^verbatim>\<open>ValueError\<close>.
\<close>

definition bdim :: "nat \<Rightarrow> nat \<Rightarrow> nat option" where
  "bdim m n = (if m = n then Some m else if m = 1 then Some n else if n = 1 then Some m else None)"

definition bidx :: "nat \<Rightarrow> nat \<Rightarrow> nat" where
  "bidx m i = (if m = 1 then 0 else i)"

definition np_binary :: "('a \<Rightarrow> 'b \<Rightarrow> 'c) \<Rightarrow> 'a ndarray \<Rightarrow> 'b ndarray \<Rightarrow> error + 'c ndarray" where
  "np_binary f a b =
     (case (bdim (shape0 a) (shape0 b), bdim (shape1 a) (shape1 b)) of
        (Some r, Some c) \<Rightarrow>
          Inr \<lparr>shape0 = r, shape1 = c,
               entry = (\<lambda>i j. f (entry a (bidx (shape0 a) i) (bidx (shape1 a) j))
                                (entry b (bidx (shape0 b) i) (bidx (shape1 b) j)))\<rparr>
      | _ \<Rightarrow> Inl ValueError)"

definition np_add :: "int ndarray \<Rightarrow> int ndarray \<Rightarrow> error + int ndarray" where
  "np_add = np_binary (+)"

definition np_maximum :: "bool ndarray \<Rightarrow> bool ndarray \<Rightarrow> error + bool ndarray" where
  "np_maximum = np_binary max"

text \<open>
  \<^verbatim>\<open>np.allclose(a, b)\<close> with the default tolerances \<^verbatim>\<open>rtol=1e-05\<close>, \<^verbatim>\<open>atol=1e-08\<close>:
  every entry satisfies \<^verbatim>\<open>abs(a - b) <= atol + rtol * abs(b)\<close>, computed in floats. The source calls it on a
  square matrix and its transpose, so the two shapes agree and the entries compared are
  those of the shape of \<open>a\<close>.
\<close>

definition isclose :: "float_ops \<Rightarrow> real \<Rightarrow> real \<Rightarrow> bool" where
  "isclose ops x y = (\<bar>fsub ops x y\<bar> \<le> fadd ops (atol ops) (fmul ops (rtol ops) \<bar>y\<bar>))"

definition np_allclose :: "float_ops \<Rightarrow> real ndarray \<Rightarrow> real ndarray \<Rightarrow> bool" where
  "np_allclose ops a b =
     list_all (\<lambda>i. list_all (\<lambda>j. isclose ops (entry a i j) (entry b i j)) [0..<shape1 a]) [0..<shape0 a]"

subsection \<open>The class \<^verbatim>\<open>Stability\<close>\<close>

record stability =
  beta :: real
  thres :: real
  verbose :: bool

text \<open>\<^verbatim>\<open>_dep2adj\<close>, lines 39 to 56.\<close>

definition dep2adj :: "float_ops \<Rightarrow> stability \<Rightarrow> real ndarray \<Rightarrow> error + int ndarray" where
  "dep2adj ops self dep_matrix =
     (if shape0 dep_matrix \<noteq> shape1 dep_matrix then Inl AssertNotQuadratic
      else if np_allclose ops dep_matrix (np_T dep_matrix)
      then Inr (np_array_int (np_gt (np_abs dep_matrix) (thres self)))
      else (case np_maximum (np_gt (np_abs dep_matrix) (thres self))
                            (np_gt (np_abs (np_T dep_matrix)) (thres self)) of
              Inl e \<Rightarrow> Inl e
            | Inr adj \<Rightarrow> Inr (np_array_int adj)))"

text \<open>
  \<^verbatim>\<open>_adj_var\<close>, lines 58 to 63. \<^verbatim>\<open>np.triu_indices(p, k=1)\<close> lists the index pairs above
  the diagonal row by row; \<^verbatim>\<open>misc.comb(p, 2)\<close> is the binomial coefficient as a float. The
  fancy indexing \<^verbatim>\<open>mean_adj[x_idx, y_idx]\<close> raises \<^verbatim>\<open>IndexError\<close> when an index is outside
  the array. When \<^verbatim>\<open>nck\<close> is \<^verbatim>\<open>0.0\<close> there is no index pair, \<^verbatim>\<open>np.sum\<close> of the empty array
  is \<^verbatim>\<open>0.0\<close>, and numpy's float division \<^verbatim>\<open>0.0 / 0.0\<close> returns \<^verbatim>\<open>nan\<close> without raising.
\<close>

definition triu_indices :: "nat \<Rightarrow> (nat \<times> nat) list" where
  "triu_indices p = [(i, j). i \<leftarrow> [0..<p], j \<leftarrow> [Suc i..<p]]"

definition comb2 :: "nat \<Rightarrow> real" where
  "comb2 p = real (p choose 2)"

definition adj_var :: "float_ops \<Rightarrow> real ndarray \<Rightarrow> error + npfloat" where
  "adj_var ops mean_adj =
     (let p = shape0 mean_adj;
          idx = triu_indices p;
          nck = comb2 p
      in if \<not> list_all (\<lambda>(x, y). x < shape0 mean_adj \<and> y < shape1 mean_adj) idx then Inl IndexError
         else if nck = 0 then Inr NaN
         else Inr (Fin (fdiv ops
                          (fsum ops (map (\<lambda>(x, y). fmul ops (fmul ops 2 (entry mean_adj x y))
                                                            (fsub ops 1 (entry mean_adj x y))) idx))
                          nck)))"

text \<open>
  Python helpers: \<^verbatim>\<open>d[k] = v\<close> on a dict, a list comprehension whose body may raise,
  \<^verbatim>\<open>reduce(f, xs)\<close> without an initial value, \<^verbatim>\<open>xs[i]\<close> with \<^verbatim>\<open>i >= 0\<close>.
\<close>

primrec dict_set :: "'k \<Rightarrow> 'v \<Rightarrow> ('k \<times> 'v) list \<Rightarrow> ('k \<times> 'v) list" where
  "dict_set k v [] = [(k, v)]"
| "dict_set k v (kv # d) = (if fst kv = k then (k, v) # d else kv # dict_set k v d)"

fun mapE :: "('a \<Rightarrow> error + 'b) \<Rightarrow> 'a list \<Rightarrow> error + 'b list" where
  "mapE f [] = Inr []"
| "mapE f (x # xs) =
     (case f x of
        Inl e \<Rightarrow> Inl e
      | Inr y \<Rightarrow> (case mapE f xs of Inl e \<Rightarrow> Inl e | Inr ys \<Rightarrow> Inr (y # ys)))"

fun foldE :: "('b \<Rightarrow> 'a \<Rightarrow> error + 'b) \<Rightarrow> 'b \<Rightarrow> 'a list \<Rightarrow> error + 'b" where
  "foldE f a [] = Inr a"
| "foldE f a (x # xs) = (case f a x of Inl e \<Rightarrow> Inl e | Inr a' \<Rightarrow> foldE f a' xs)"

fun reduce_add :: "int ndarray list \<Rightarrow> error + int ndarray" where
  "reduce_add [] = Inl TypeError"
| "reduce_add (x # xs) = foldE np_add x xs"

definition getitem :: "nat \<Rightarrow> 'a list \<Rightarrow> error + 'a" where
  "getitem i xs = (if i < length xs then Inr (xs ! i) else Inl IndexError)"

text \<open>
  \<^verbatim>\<open>np.min\<close> of a list of floats raises \<^verbatim>\<open>ValueError\<close> on the empty list and returns
  \<^verbatim>\<open>nan\<close> as soon as one element is \<^verbatim>\<open>nan\<close>; a comparison with \<^verbatim>\<open>nan\<close> is false.
\<close>

fun fmin :: "npfloat \<Rightarrow> npfloat \<Rightarrow> npfloat" where
  "fmin (Fin x) (Fin y) = Fin (min x y)"
| "fmin _ _ = NaN"

fun np_min :: "npfloat list \<Rightarrow> error + npfloat" where
  "np_min [] = Inl ValueError"
| "np_min (x # xs) = Inr (foldl fmin x xs)"

fun fle :: "npfloat \<Rightarrow> real \<Rightarrow> bool" where
  "fle (Fin x) b = (x \<le> b)"
| "fle NaN b = False"

text \<open>
  \<^verbatim>\<open>optimal_reg\<close>, lines 80 to 82: the loop that fills \<^verbatim>\<open>sample2adjs\<close>. The dict
  \<^verbatim>\<open>sample2deps\<close> is the list of its items, in the order in which Python iterates it; that
  order is arbitrary, and the claim on the order of the subsamples below shows that the result
  does not depend on it.
\<close>

fun build_sample2adjs ::
  "float_ops \<Rightarrow> stability \<Rightarrow> ('s \<times> real ndarray list) list \<Rightarrow> ('s \<times> int ndarray list) list
     \<Rightarrow> error + ('s \<times> int ndarray list) list" where
  "build_sample2adjs ops self [] sample2adjs = Inr sample2adjs"
| "build_sample2adjs ops self ((sample, deps) # rest) sample2adjs =
     (case mapE (dep2adj ops self) deps of
        Inl e \<Rightarrow> Inl e
      | Inr adjs \<Rightarrow> build_sample2adjs ops self rest (dict_set sample adjs sample2adjs))"

text \<open>Lines 83 to 85: the loop over \<^verbatim>\<open>enumerate(rhos)\<close> that fills \<^verbatim>\<open>rho2adjs\<close>.\<close>

fun build_rho2adjs ::
  "('s \<times> int ndarray list) list \<Rightarrow> (nat \<times> real) list \<Rightarrow> (real \<times> int ndarray) list
     \<Rightarrow> error + (real \<times> int ndarray) list" where
  "build_rho2adjs sample2adjs [] rho2adjs = Inr rho2adjs"
| "build_rho2adjs sample2adjs ((i, rho) # rest) rho2adjs =
     (case mapE (getitem i) (map snd sample2adjs) of
        Inl e \<Rightarrow> Inl e
      | Inr ms \<Rightarrow>
          (case reduce_add ms of
             Inl e \<Rightarrow> Inl e
           | Inr s \<Rightarrow> build_rho2adjs sample2adjs rest (dict_set rho s rho2adjs)))"

text \<open>
  Lines 78 to 87, up to \<^verbatim>\<open>rho2mean_adj\<close>. The division by \<^verbatim>\<open>n_adj\<close> is only evaluated
  for the items of \<^verbatim>\<open>rho2adjs\<close>, and there is an item only if \<^verbatim>\<open>reduce\<close> succeeded on a
  non-empty list of subsamples, so \<^verbatim>\<open>n_adj\<close> is at least 1 there.
\<close>

definition rho2mean_adj_of ::
  "float_ops \<Rightarrow> stability \<Rightarrow> real list \<Rightarrow> ('s \<times> real ndarray list) list
     \<Rightarrow> error + (real \<times> real ndarray) list" where
  "rho2mean_adj_of ops self rhos sample2deps =
     (if \<not> list_all (\<lambda>deps. length rhos = length deps) (map snd sample2deps) then Inl AssertMissing
      else (case build_sample2adjs ops self sample2deps [] of
              Inl e \<Rightarrow> Inl e
            | Inr sample2adjs \<Rightarrow>
                (case build_rho2adjs sample2adjs (enumerate 0 rhos) [] of
                   Inl e \<Rightarrow> Inl e
                 | Inr rho2adjs \<Rightarrow>
                     (let n_adj = real (length sample2adjs)
                      in Inr (map (\<lambda>(rho, adj). (rho, np_div_scalar ops adj n_adj)) rho2adjs)))))"

text \<open>Line 88: \<^verbatim>\<open>rho2var\<close>.\<close>

definition rho2var_of ::
  "float_ops \<Rightarrow> stability \<Rightarrow> real list \<Rightarrow> ('s \<times> real ndarray list) list
     \<Rightarrow> error + (real \<times> npfloat) list" where
  "rho2var_of ops self rhos sample2deps =
     (case rho2mean_adj_of ops self rhos sample2deps of
        Inl e \<Rightarrow> Inl e
      | Inr rho2mean_adj \<Rightarrow>
          mapE (\<lambda>(rho, mean_adj). case adj_var ops mean_adj of Inl e \<Rightarrow> Inl e | Inr var \<Rightarrow> Inr (rho, var))
               rho2mean_adj)"

text \<open>
  Lines 93 to 97: the scan over the sorted values, leaving the loop at the first hit. The
  scores of \<^verbatim>\<open>rho2var\<close> are the floats that line 88 computed; \<^verbatim>\<open>np.min\<close> and the comparison
  of line 95 are exact on them.
\<close>

fun scan :: "real \<Rightarrow> (real \<times> npfloat) list \<Rightarrow> real list \<Rightarrow> error + real option" where
  "scan b rho2var [] = Inr None"
| "scan b rho2var (rho # rest) =
     (case np_min [var. (lambd, var) \<leftarrow> rho2var, lambd \<le> rho] of
        Inl e \<Rightarrow> Inl e
      | Inr min_var \<Rightarrow> if fle min_var b then Inr (Some rho) else scan b rho2var rest)"

text \<open>
  Lines 91 to 104: sorting, the scan, the fallback \<^verbatim>\<open>rhos[-2]\<close> with its warning, and the
  printing. \<^verbatim>\<open>rhos[-2]\<close> raises \<^verbatim>\<open>IndexError\<close> on a list of fewer than two elements, before
  the warning is issued.
\<close>

definition printed :: "stability \<Rightarrow> real \<Rightarrow> event list" where
  "printed self rho_opt = (if verbose self then [Print rho_opt] else [])"

definition select_rho :: "stability \<Rightarrow> real list \<Rightarrow> (real \<times> npfloat) list \<Rightarrow> (error + real) \<times> event list" where
  "select_rho self rhos0 rho2var =
     (let rhos = sort rhos0
      in case scan (beta self) rho2var rhos of
           Inl e \<Rightarrow> (Inl e, [])
         | Inr (Some rho_opt) \<Rightarrow> (Inr rho_opt, printed self rho_opt)
         | Inr None \<Rightarrow>
             (if 2 \<le> length rhos
              then (let rho_opt = rhos ! (length rhos - 2)
                    in (Inr rho_opt, Warn rho_opt # printed self rho_opt))
              else (Inl IndexError, [])))"

text \<open>\<^verbatim>\<open>optimal_reg\<close>, lines 65 to 104: the value returned or the exception raised, and the
  events issued on the way.\<close>

definition optimal_reg ::
  "float_ops \<Rightarrow> stability \<Rightarrow> real list \<Rightarrow> ('s \<times> real ndarray list) list
     \<Rightarrow> (error + real) \<times> event list" where
  "optimal_reg ops self rhos sample2deps =
     (case rho2var_of ops self rhos sample2deps of
        Inl e \<Rightarrow> (Inl e, [])
      | Inr rho2var \<Rightarrow> select_rho self rhos rho2var)"

subsection \<open>Vocabulary of the specification\<close>

text \<open>The index pairs of the strict upper triangle of a \<open>p \<times> p\<close> matrix: one per unordered
  pair of features.\<close>

definition upper_pairs :: "nat \<Rightarrow> (nat \<times> nat) set" where
  "upper_pairs p = {(i, j). i < j \<and> j < p}"

text \<open>A matrix is numerically symmetric when every entry matches its transpose within the
  tolerance of the closeness test, computed in floats.\<close>

definition numerically_symmetric :: "float_ops \<Rightarrow> real ndarray \<Rightarrow> bool" where
  "numerically_symmetric ops dep \<longleftrightarrow>
     (\<forall>i < shape0 dep. \<forall>j < shape1 dep.
        \<bar>fsub ops (entry dep i j) (entry dep j i)\<bar>
          \<le> fadd ops (atol ops) (fmul ops (rtol ops) \<bar>entry dep j i\<bar>))"

text \<open>
  A valid call of \<^verbatim>\<open>optimal_reg\<close>: at least one subsample, the keys of the dict distinct,
  every subsample with one matrix per regularization value, every matrix square over the same
  \<open>p\<close> features.
\<close>

definition valid_input :: "nat \<Rightarrow> real list \<Rightarrow> ('s \<times> real ndarray list) list \<Rightarrow> bool" where
  "valid_input p rhos sample2deps \<longleftrightarrow>
     sample2deps \<noteq> [] \<and> distinct (map fst sample2deps)
     \<and> (\<forall>(sample, deps)\<in>set sample2deps.
           length deps = length rhos \<and> (\<forall>dep\<in>set deps. shape0 dep = p \<and> shape1 dep = p))"

text \<open>
  The quantities of lines 82 to 88 at one position \<open>i\<close> of the path: the adjacency matrices
  of the \<open>i\<close>-th dependency matrix of every subsample, their sum divided by the number of
  subsamples, and the score of that mean.
\<close>

definition conv_item ::
  "float_ops \<Rightarrow> stability \<Rightarrow> 's \<times> real ndarray list \<Rightarrow> 's \<times> int ndarray list" where
  "conv_item ops self = (\<lambda>(sample, deps). (sample, map (\<lambda>dep. projr (dep2adj ops self dep)) deps))"

definition adjs_at ::
  "float_ops \<Rightarrow> stability \<Rightarrow> ('s \<times> real ndarray list) list \<Rightarrow> nat \<Rightarrow> int ndarray list" where
  "adjs_at ops self sample2deps i =
     map (\<lambda>(sample, deps). projr (dep2adj ops self (deps ! i))) sample2deps"

definition mean_adj_at ::
  "float_ops \<Rightarrow> stability \<Rightarrow> ('s \<times> real ndarray list) list \<Rightarrow> nat \<Rightarrow> real ndarray" where
  "mean_adj_at ops self sample2deps i =
     np_div_scalar ops (projr (reduce_add (adjs_at ops self sample2deps i))) (real (length sample2deps))"

definition score_at ::
  "float_ops \<Rightarrow> stability \<Rightarrow> ('s \<times> real ndarray list) list \<Rightarrow> nat \<Rightarrow> npfloat" where
  "score_at ops self sample2deps i = projr (adj_var ops (mean_adj_at ops self sample2deps i))"

text \<open>The dict obtained by assigning a list of items in order to the empty dict.\<close>

definition dict_of :: "('k \<times> 'v) list \<Rightarrow> ('k \<times> 'v) list" where
  "dict_of kvs = foldl (\<lambda>d (k, v). dict_set k v d) [] kvs"

text \<open>
  The running minimum of the specification at a candidate \<open>rho\<close>: the least score among the
  values not above \<open>rho\<close>. A candidate is stable when every score among the values not above
  it is a number and its running minimum is at most the bound (a score that is not a number
  makes the minimum not a number, and the comparison false). A candidate is the first stable
  one when it is stable and no earlier candidate is.
\<close>

definition running_min :: "(real \<times> npfloat) list \<Rightarrow> real \<Rightarrow> real" where
  "running_min rho2var rho = Min (set [v. (r, Fin v) \<leftarrow> rho2var, r \<le> rho])"

definition stable_at :: "real \<Rightarrow> (real \<times> npfloat) list \<Rightarrow> real \<Rightarrow> bool" where
  "stable_at b rho2var rho \<longleftrightarrow>
     list_all (\<lambda>(r, v). r \<le> rho \<longrightarrow> v \<noteq> NaN) rho2var \<and> running_min rho2var rho \<le> b"


text \<open>The fallback value as the specification words it: the second-largest element of the
  sorted distinct values.\<close>

definition second_largest_distinct :: "real list \<Rightarrow> real" where
  "second_largest_distinct rhos = (let d = sort (remdups rhos) in d ! (length d - 2))"

subsection \<open>Example inputs\<close>

definition example_self :: stability where
  "example_self = \<lparr>beta = 5 / 100, thres = 1 / 1000, verbose = True\<rparr>"

definition no_edges :: "real ndarray" where
  "no_edges = of_rows [[0, 0, 0], [0, 0, 0], [0, 0, 0]]"

definition all_edges :: "real ndarray" where
  "all_edges = of_rows [[0, 1, 1], [1, 0, 1], [1, 1, 0]]"

text \<open>Two subsamples over the path \<open>[0.5, 0.1, 0.3]\<close>: they agree at 0.5 (no edge) and at
  0.3 (every edge) and disagree on every edge at 0.1.\<close>

definition example_samples :: "(string \<times> real ndarray list) list" where
  "example_samples = [(''a'', [no_edges, all_edges, all_edges]), (''b'', [no_edges, no_edges, all_edges])]"

text \<open>Two subsamples that disagree on every edge at every value of the path.\<close>

definition unstable_samples :: "(string \<times> real ndarray list) list" where
  "unstable_samples = [(''a'', [all_edges, all_edges, all_edges]), (''b'', [no_edges, no_edges, no_edges])]"

section \<open>Properties\<close>

subsection \<open>The instability score \<^verbatim>\<open>_adj_var\<close>\<close>

lemma set_triu_indices: "set (triu_indices p) = upper_pairs p"
proof -
  have "(a, b) \<in> set (triu_indices p) \<longleftrightarrow> a < b \<and> b < p" for a b
  proof
    assume "(a, b) \<in> set (triu_indices p)"
    then show "a < b \<and> b < p" by (auto simp: triu_indices_def)
  next
    assume ab: "a < b \<and> b < p"
    then have "a \<in> {0..<p}" and "(a, b) \<in> Pair a ` {Suc a..<p}" by auto
    then have "(a, b) \<in> (\<Union>i\<in>{0..<p}. Pair i ` {Suc i..<p})" by blast
    then show "(a, b) \<in> set (triu_indices p)"
      by (simp add: triu_indices_def)
  qed
  then show ?thesis by (auto simp: upper_pairs_def)
qed

lemma distinct_pair_rows:
  "distinct xs \<Longrightarrow> (\<And>i. distinct (f i)) \<Longrightarrow> distinct (concat (map (\<lambda>i. map (Pair i) (f i)) xs))"
  by (induction xs) (auto simp: distinct_map inj_on_def)

lemma distinct_triu_indices: "distinct (triu_indices p)"
  unfolding triu_indices_def by (rule distinct_pair_rows) simp_all

lemma finite_upper_pairs: "finite (upper_pairs p)"
  using set_triu_indices [of p, symmetric] by simp

lemma upper_pairs_Suc: "upper_pairs (Suc p) = upper_pairs p \<union> (\<lambda>i. (i, p)) ` {..<p}"
  by (auto simp: upper_pairs_def less_Suc_eq)

lemma card_upper_pairs: "card (upper_pairs p) = p choose 2"
proof (induction p)
  case 0
  show ?case by (simp add: upper_pairs_def)
next
  case (Suc p)
  have disj: "upper_pairs p \<inter> (\<lambda>i. (i, p)) ` {..<p} = {}"
    by (auto simp: upper_pairs_def)
  have "card ((\<lambda>i. (i, p)) ` {..<p}) = p"
    by (simp add: card_image inj_on_def)
  then have "card (upper_pairs (Suc p)) = (p choose 2) + p"
    using Suc disj by (simp add: upper_pairs_Suc card_Un_disjoint finite_upper_pairs)
  also have "\<dots> = Suc p choose 2"
    by (simp add: numeral_2_eq_2)
  finally show ?case .
qed

lemma length_triu_indices: "length (triu_indices p) = p choose 2"
  using distinct_card [OF distinct_triu_indices, of p] by (simp add: set_triu_indices card_upper_pairs)

lemma comb2_pos: "2 \<le> p \<Longrightarrow> 0 < comb2 p"
  by (simp add: comb2_def zero_less_binomial_iff)

lemma comb2_zero: "p < 2 \<Longrightarrow> comb2 p = 0"
  by (simp add: comb2_def)

lemma triu_in_range:
  "shape0 m = p \<Longrightarrow> p \<le> shape1 m \<Longrightarrow> list_all (\<lambda>(x, y). x < shape0 m \<and> y < shape1 m) (triu_indices p)"
  by (auto simp: list_all_iff set_triu_indices upper_pairs_def)

lemma sum_list_triu:
  "sum_list (map f (triu_indices p)) = sum f (upper_pairs p)"
  using sum_list_distinct_conv_sum_set [OF distinct_triu_indices, of f p] by (simp add: set_triu_indices)

text \<open>The operations of \<open>exact_ops\<close>, and \<^verbatim>\<open>_adj_var\<close> in exact arithmetic.\<close>

lemma exact_ops_simps:
  "fadd exact_ops = (+)" "fsub exact_ops = (-)" "fmul exact_ops = (*)" "fdiv exact_ops = (/)"
  "fsum exact_ops = sum_list" "atol exact_ops = 1 / 100000000" "rtol exact_ops = 1 / 100000"
  by (simp_all add: exact_ops_def)

lemma adj_var_exact:
  "adj_var exact_ops mean_adj =
     (let p = shape0 mean_adj;
          idx = triu_indices p;
          nck = comb2 p
      in if \<not> list_all (\<lambda>(x, y). x < shape0 mean_adj \<and> y < shape1 mean_adj) idx then Inl IndexError
         else if nck = 0 then Inr NaN
         else Inr (Fin (sum_list (map (\<lambda>(x, y). (2 * entry mean_adj x y) * (1 - entry mean_adj x y)) idx) / nck)))"
  by (simp add: adj_var_def exact_ops_simps Let_def)

lemma adj_var_square:
  assumes "shape0 m = p" "shape1 m = p" "2 \<le> p"
  shows "adj_var exact_ops m
           = Inr (Fin ((\<Sum>(i, j)\<in>upper_pairs p. 2 * entry m i j * (1 - entry m i j)) / comb2 p))"
  using assms comb2_pos [of p] triu_in_range [of m p]
  by (simp add: adj_var_exact Let_def sum_list_triu)

text \<open>In any arithmetic: no exception on a square matrix, and \<^verbatim>\<open>nan\<close> below two rows.\<close>

lemma adj_var_small: "shape0 m < 2 \<Longrightarrow> adj_var ops m = Inr NaN"
proof -
  assume a: "shape0 m < 2"
  then have "set (triu_indices (shape0 m)) = {}"
    by (auto simp: set_triu_indices upper_pairs_def)
  then have "triu_indices (shape0 m) = []"
    by simp
  then show ?thesis using a by (simp add: adj_var_def Let_def comb2_zero)
qed

lemma adj_var_defined:
  assumes "shape0 m = p" "shape1 m = p"
  shows "adj_var ops m = Inr (projr (adj_var ops m))"
  using assms triu_in_range [of m p] by (simp add: adj_var_def Let_def)

lemma adj_var_finite:
  assumes "shape0 m = p" "shape1 m = p" "2 \<le> p"
  shows "adj_var ops m \<noteq> Inr NaN"
  using assms comb2_pos [of p] triu_in_range [of m p] by (simp add: adj_var_def Let_def)

lemma upper_pairs_3: "upper_pairs 3 = {(0, 1), (0, 2), (1, 2)}"
proof -
  have "triu_indices 3 = [(0, 1), (0, 2), (1, 2)]"
    by (simp add: triu_indices_def upt_rec numeral_3_eq_3)
  then show ?thesis using set_triu_indices [of 3] by simp
qed

text \<open>
  Claim C3. For a square mean-adjacency matrix of size \<open>p \<times> p\<close> with \<open>p \<ge> 2\<close>, the score
  returned by \<^verbatim>\<open>_adj_var\<close> is the arithmetic mean of \<open>2 f (1 - f)\<close>, with \<open>f\<close> the entry
  \<open>(i, j)\<close>, over the pairs \<open>i < j\<close> of the strict upper triangle, and there are \<open>p\<close> choose 2
  such pairs. The value is that of exact arithmetic: the float that the code returns is the
  one its rounding operations make of it.
\<close>

theorem adj_var_is_mean_over_upper_pairs:
  assumes "shape0 mean_adj = p" and "shape1 mean_adj = p" and "2 \<le> p"
  shows "adj_var exact_ops mean_adj =
           Inr (Fin ((\<Sum>(i, j)\<in>upper_pairs p. 2 * entry mean_adj i j * (1 - entry mean_adj i j))
                     / real (card (upper_pairs p))))
         \<and> card (upper_pairs p) = p choose 2"
  using adj_var_square [OF assms] by (simp add: card_upper_pairs comb2_def)

theorem adj_var_is_mean_over_upper_pairs_witness:
  "shape0 (of_rows [[0, 1/2, 1], [1/2, 0, 1/4], [1, 1/4, 0::real]]) = 3
   \<and> shape1 (of_rows [[0, 1/2, 1], [1/2, 0, 1/4], [1, 1/4, 0::real]]) = 3
   \<and> (2::nat) \<le> 3
   \<and> adj_var exact_ops (of_rows [[0, 1/2, 1], [1/2, 0, 1/4], [1, 1/4, 0]]) = Inr (Fin (7 / 24))"
proof -
  let ?m = "of_rows [[0, 1/2, 1], [1/2, 0, 1/4], [1, 1/4, 0::real]]"
  have h: "shape0 ?m = 3" "shape1 ?m = 3" "(2::nat) \<le> 3" by (simp_all add: of_rows_def)
  have "adj_var exact_ops ?m = Inr (Fin ((\<Sum>(i, j)\<in>upper_pairs 3. 2 * entry ?m i j * (1 - entry ?m i j))
                     / real (card (upper_pairs 3))))"
    using adj_var_is_mean_over_upper_pairs [OF h] by blast
  also have "\<dots> = Inr (Fin (7 / 24))"
    by (simp add: upper_pairs_3 of_rows_def)
  finally show ?thesis using h by simp
qed

lemma pair_bounds:
  fixes f :: real
  assumes "0 \<le> f" "f \<le> 1"
  shows "0 \<le> 2 * f * (1 - f)" and "2 * f * (1 - f) \<le> 1 / 2"
proof -
  show "0 \<le> 2 * f * (1 - f)" using assms by simp
  have "1 / 2 - 2 * f * (1 - f) = 2 * (f - 1 / 2)\<^sup>2"
    by (simp add: power2_eq_square algebra_simps)
  moreover have "0 \<le> 2 * (f - 1 / 2)\<^sup>2" by simp
  ultimately show "2 * f * (1 - f) \<le> 1 / 2" by linarith
qed

lemma pair_peak_iff:
  fixes f :: real
  shows "2 * f * (1 - f) = 1 / 2 \<longleftrightarrow> f = 1 / 2"
proof -
  have "1 / 2 - 2 * f * (1 - f) = 2 * (f - 1 / 2)\<^sup>2"
    by (simp add: power2_eq_square algebra_simps)
  then have "2 * f * (1 - f) = 1 / 2 \<longleftrightarrow> (f - 1 / 2)\<^sup>2 = 0" by linarith
  then show ?thesis by simp
qed


text \<open>
  Claim C4, as stated, puts the peak of the score at 1. With every pair at frequency
  \<open>1/2\<close> the score is \<open>1/2\<close>: the contribution \<open>2 f (1 - f)\<close> of a pair is at most \<open>1/2\<close>.
\<close>

theorem adj_var_peak_counterexample:
  "adj_var exact_ops (of_rows [[0, 1/2], [1/2, 0]]) = Inr (Fin (1 / 2))
   \<and> adj_var exact_ops (of_rows [[0, 1/2], [1/2, 0]]) \<noteq> Inr (Fin 1)"
  by (simp add: adj_var_exact Let_def of_rows_def triu_indices_def comb2_def upt_rec numeral_2_eq_2)

text \<open>
  Claim C4, amended. For a \<open>p \<times> p\<close> mean-adjacency matrix with \<open>p \<ge> 2\<close> whose entries above
  the diagonal lie in \<open>[0, 1]\<close>, the score lies in \<open>[0, 1/2]\<close>, hence in \<open>[0, 1]\<close>; it is 0 when
  every pair's frequency is 0 or 1; and it reaches its peak \<open>1/2\<close> exactly when every pair's
  frequency is \<open>1/2\<close>. The score is that of exact arithmetic.
\<close>

theorem adj_var_bounds:
  assumes sq: "shape0 mean_adj = p" "shape1 mean_adj = p" and p: "2 \<le> p"
    and rng: "\<forall>(i, j)\<in>upper_pairs p. 0 \<le> entry mean_adj i j \<and> entry mean_adj i j \<le> 1"
  shows "\<exists>v. adj_var exact_ops mean_adj = Inr (Fin v) \<and> 0 \<le> v \<and> v \<le> 1 / 2 \<and> v \<le> 1
           \<and> ((\<forall>(i, j)\<in>upper_pairs p. entry mean_adj i j = 0 \<or> entry mean_adj i j = 1) \<longrightarrow> v = 0)
           \<and> ((\<forall>(i, j)\<in>upper_pairs p. entry mean_adj i j = 1 / 2) \<longleftrightarrow> v = 1 / 2)"
proof -
  define g where "g = (\<lambda>(i, j). 2 * entry mean_adj i j * (1 - entry mean_adj i j))"
  define S where "S = sum g (upper_pairs p)"
  define n where "n = comb2 p"
  have n: "0 < n" using p by (simp add: n_def comb2_pos)
  have card: "real (card (upper_pairs p)) = n" by (simp add: n_def comb2_def card_upper_pairs)
  have fin: "finite (upper_pairs p)" by (rule finite_upper_pairs)
  have av: "adj_var exact_ops mean_adj = Inr (Fin (S / n))"
    using adj_var_square [OF sq p] by (simp add: S_def g_def n_def)
  have g0: "0 \<le> g x" and g1: "g x \<le> 1 / 2" if "x \<in> upper_pairs p" for x
    using rng that pair_bounds by (auto simp: g_def split: prod.splits)
  have S0: "0 \<le> S" unfolding S_def by (rule sum_nonneg) (rule g0)
  have "S \<le> (\<Sum>x\<in>upper_pairs p. 1 / 2)" unfolding S_def by (rule sum_mono) (rule g1)
  then have Sle: "S \<le> n / 2" using card by simp
  have v0: "0 \<le> S / n" using S0 n by simp
  have vh: "S / n \<le> 1 / 2" using Sle n by (simp add: field_simps)
  have zero: "S / n = 0" if "\<forall>(i, j)\<in>upper_pairs p. entry mean_adj i j = 0 \<or> entry mean_adj i j = 1"
  proof -
    have "g x = 0" if "x \<in> upper_pairs p" for x
      using \<open>\<forall>(i, j)\<in>upper_pairs p. entry mean_adj i j = 0 \<or> entry mean_adj i j = 1\<close> that
      by (auto simp: g_def split: prod.splits)
    then show ?thesis by (simp add: S_def)
  qed
  have peak: "(\<forall>(i, j)\<in>upper_pairs p. entry mean_adj i j = 1 / 2) \<longleftrightarrow> S / n = 1 / 2"
  proof -
    have "(\<Sum>x\<in>upper_pairs p. 1 / 2 - g x) = n / 2 - S"
      using card by (simp add: S_def sum_subtractf)
    moreover have "S / n = 1 / 2 \<longleftrightarrow> n / 2 - S = 0"
      using n by (simp add: field_simps)
    ultimately have "S / n = 1 / 2 \<longleftrightarrow> (\<Sum>x\<in>upper_pairs p. 1 / 2 - g x) = 0"
      by simp
    also have "\<dots> \<longleftrightarrow> (\<forall>x\<in>upper_pairs p. 1 / 2 - g x = 0)"
      by (rule sum_nonneg_eq_0_iff [OF fin]) (use g1 in fastforce)
    also have "\<dots> \<longleftrightarrow> (\<forall>(i, j)\<in>upper_pairs p. entry mean_adj i j = 1 / 2)"
      using pair_peak_iff by (auto simp: g_def split: prod.splits)
    finally show ?thesis by simp
  qed
  have v1: "S / n \<le> 1" using vh by linarith
  show ?thesis
    by (rule exI [of _ "S / n"]) (use av v0 vh v1 zero peak in blast)
qed

theorem adj_var_bounds_witness:
  "\<exists>v. adj_var exact_ops (of_rows [[0, 1/2, 1], [1/2, 0, 1/4], [1, 1/4, 0]]) = Inr (Fin v) \<and> 0 \<le> v \<and> v \<le> 1 / 2"
proof -
  let ?m = "of_rows [[0, 1/2, 1], [1/2, 0, 1/4], [1, 1/4, 0::real]]"
  have h: "shape0 ?m = 3" "shape1 ?m = 3" "(2::nat) \<le> 3" by (simp_all add: of_rows_def)
  have r: "\<forall>(i, j)\<in>upper_pairs 3. 0 \<le> entry ?m i j \<and> entry ?m i j \<le> 1"
    by (simp add: upper_pairs_3 of_rows_def)
  from adj_var_bounds [OF h r] show ?thesis by blast
qed

text \<open>
  Claim C9, as stated, has \<^verbatim>\<open>_adj_var\<close> fail on a matrix with fewer than 2 rows. The source
  has no such check: on a \<open>1 \<times> 1\<close> matrix it divides \<^verbatim>\<open>0.0\<close> by \<^verbatim>\<open>0.0\<close> and returns \<^verbatim>\<open>nan\<close>.
\<close>

theorem adj_var_no_error_counterexample:
  "adj_var exact_ops (of_rows [[0]]) = Inr NaN \<and> (\<forall>e. adj_var exact_ops (of_rows [[0]]) \<noteq> Inl e)"
  by (simp add: adj_var_exact Let_def of_rows_def triu_indices_def comb2_def)

text \<open>
  Claim C9, amended. For a mean-adjacency matrix with fewer than 2 rows \<^verbatim>\<open>_adj_var\<close> raises
  no exception and returns \<^verbatim>\<open>nan\<close>, whatever the rounding of the float operations.
\<close>

theorem adj_var_nan_below_two:
  assumes "shape0 mean_adj < 2"
  shows "adj_var ops mean_adj = Inr NaN"
  using assms by (rule adj_var_small)

theorem adj_var_nan_below_two_witness:
  "shape0 (of_rows [[3 / 10]] :: real ndarray) < 2 \<and> adj_var exact_ops (of_rows [[3 / 10]]) = Inr NaN"
proof -
  have h: "shape0 (of_rows [[3 / 10]] :: real ndarray) < 2" by (simp add: of_rows_def)
  from adj_var_nan_below_two [OF h, of exact_ops] h show ?thesis by simp
qed

subsection \<open>The adjacency conversion \<^verbatim>\<open>_dep2adj\<close>\<close>

lemma bidx_in_range: "i < m \<Longrightarrow> bidx m i = i"
  by (simp add: bidx_def)

lemma np_allclose_T:
  "shape0 dep = shape1 dep \<Longrightarrow> np_allclose ops dep (np_T dep) \<longleftrightarrow> numerically_symmetric ops dep"
  by (auto simp: np_allclose_def numerically_symmetric_def list_all_iff isclose_def np_T_def)

lemma np_binary_same_shape:
  assumes "shape0 a = p" "shape1 a = q" "shape0 b = p" "shape1 b = q"
  shows "\<exists>c. np_binary f a b = Inr c \<and> shape0 c = p \<and> shape1 c = q
           \<and> (\<forall>i<p. \<forall>j<q. entry c i j = f (entry a i j) (entry b i j))"
  using assms by (simp add: np_binary_def bdim_def bidx_in_range)

lemma dep2adj_square:
  assumes "shape0 dep = p" "shape1 dep = p"
  shows "\<exists>adj. dep2adj ops self dep = Inr adj \<and> shape0 adj = p \<and> shape1 adj = p
           \<and> (\<forall>i<p. \<forall>j<p. entry adj i j =
                 (if numerically_symmetric ops dep
                  then (if \<bar>entry dep i j\<bar> > thres self then 1 else 0)
                  else (if \<bar>entry dep i j\<bar> > thres self \<or> \<bar>entry dep j i\<bar> > thres self then 1 else 0)))"
proof (cases "numerically_symmetric ops dep")
  case True
  then show ?thesis
    using assms by (simp add: dep2adj_def np_allclose_T np_array_int_def np_gt_def np_abs_def)
next
  case False
  let ?a = "np_gt (np_abs dep) (thres self)"
  let ?b = "np_gt (np_abs (np_T dep)) (thres self)"
  have "shape0 ?a = p" "shape1 ?a = p" "shape0 ?b = p" "shape1 ?b = p"
    using assms by (simp_all add: np_gt_def np_abs_def np_T_def)
  from np_binary_same_shape [OF this, of max] obtain c where
    c: "np_maximum ?a ?b = Inr c" "shape0 c = p" "shape1 c = p"
       "\<forall>i<p. \<forall>j<p. entry c i j = max (entry ?a i j) (entry ?b i j)"
    by (auto simp: np_maximum_def)
  have "\<forall>i<p. \<forall>j<p. entry c i j = (\<bar>entry dep i j\<bar> > thres self \<or> \<bar>entry dep j i\<bar> > thres self)"
    using c(4) by (simp add: np_gt_def np_abs_def np_T_def max_def le_bool_def) blast
  then show ?thesis
    using False assms c(1-3) by (simp add: dep2adj_def np_allclose_T np_array_int_def)
qed

text \<open>
  Claim C6. For a square dependency matrix, whatever the rounding of the float operations: if
  the matrix is numerically symmetric (every entry matches its transpose within the tolerance
  of the closeness test, as the floats compute it), the adjacency entry \<open>(i, j)\<close> is 1 iff
  \<open>|dep[i,j]| > thres\<close>, else 0; if it is not, the entry is 1 iff \<open>|dep[i,j]| > thres\<close> or
  \<open>|dep[j,i]| > thres\<close>, else 0.
\<close>

theorem dep2adj_entries:
  assumes "shape0 dep = p" and "shape1 dep = p"
  shows "\<exists>adj. dep2adj ops self dep = Inr adj \<and> shape0 adj = p \<and> shape1 adj = p
           \<and> (\<forall>i<p. \<forall>j<p.
                 (numerically_symmetric ops dep \<longrightarrow>
                    entry adj i j = (if \<bar>entry dep i j\<bar> > thres self then 1 else 0))
               \<and> (\<not> numerically_symmetric ops dep \<longrightarrow>
                    entry adj i j = (if \<bar>entry dep i j\<bar> > thres self \<or> \<bar>entry dep j i\<bar> > thres self then 1 else 0)))"
  using dep2adj_square [OF assms, of ops self] by auto

theorem dep2adj_entries_witness:
  "\<exists>adj. dep2adj exact_ops \<lparr>beta = 5 / 100, thres = 1 / 1000, verbose = True\<rparr>
                  (of_rows [[0, 5 / 10000], [2 / 1000, 0]]) = Inr adj
         \<and> shape0 adj = 2 \<and> shape1 adj = 2
         \<and> entry adj 0 0 = 0 \<and> entry adj 0 1 = 1 \<and> entry adj 1 0 = 1 \<and> entry adj 1 1 = 0"
proof -
  let ?self = "\<lparr>beta = 5 / 100, thres = 1 / 1000, verbose = True\<rparr>"
  let ?d = "of_rows [[0, 5 / 10000], [2 / 1000, 0::real]]"
  have h: "shape0 ?d = 2" "shape1 ?d = 2" by (simp_all add: of_rows_def)
  have ns: "\<not> numerically_symmetric exact_ops ?d"
  proof
    assume "numerically_symmetric exact_ops ?d"
    then have "\<bar>entry ?d 0 1 - entry ?d 1 0\<bar> \<le> 1 / 100000000 + 1 / 100000 * \<bar>entry ?d 1 0\<bar>"
      unfolding numerically_symmetric_def exact_ops_simps using h by simp
    then show False by (simp add: of_rows_def)
  qed
  from dep2adj_entries [OF h, of exact_ops ?self] obtain adj where
    a: "dep2adj exact_ops ?self ?d = Inr adj" "shape0 adj = 2" "shape1 adj = 2"
    and e: "\<forall>i<2. \<forall>j<2. entry adj i j =
              (if \<bar>entry ?d i j\<bar> > thres ?self \<or> \<bar>entry ?d j i\<bar> > thres ?self then 1 else 0)"
    using ns by blast
  have "entry adj 0 0 = 0" "entry adj 0 1 = 1" "entry adj 1 0 = 1" "entry adj 1 1 = 0"
    using e by (simp_all add: of_rows_def)
  with a show ?thesis by blast
qed

text \<open>
  Claim C5 holds of the branch of line 54, which ORs the thresholded matrix with its
  transpose, and fails on the branch of line 52: a matrix that passes the closeness test of
  line 50 is thresholded entry by entry, and when the threshold separates \<open>|dep[i,j]|\<close> from
  \<open>|dep[j,i]|\<close> the result has a 0 at \<open>(i, j)\<close> and a 1 at \<open>(j, i)\<close>. This holds whatever the
  rounding of the float operations, as soon as the closeness test passes.
\<close>

theorem dep2adj_asymmetric_when_close:
  assumes "shape0 dep = p" and "shape1 dep = p" and "np_allclose ops dep (np_T dep)"
    and "i < p" and "j < p"
    and "\<bar>entry dep i j\<bar> \<le> thres self" and "thres self < \<bar>entry dep j i\<bar>"
  shows "\<exists>adj. dep2adj ops self dep = Inr adj \<and> entry adj i j = 0 \<and> entry adj j i = 1"
proof -
  have ns: "numerically_symmetric ops dep"
    using assms(1-3) by (simp add: np_allclose_T)
  from dep2adj_square [OF assms(1,2), of ops self] obtain adj where
    a: "dep2adj ops self dep = Inr adj"
    and e: "\<forall>i<p. \<forall>j<p. entry adj i j = (if \<bar>entry dep i j\<bar> > thres self then 1 else 0)"
    using ns by auto
  have "entry adj i j = 0" using e assms(4-6) by simp
  moreover have "entry adj j i = 1" using e assms(4,5,7) by simp
  ultimately show ?thesis using a by blast
qed

text \<open>
  The failing input: \<^verbatim>\<open>dep_matrix = [[0, 2**-10], [2**-10 + 2**-34, 0]]\<close> with
  \<^verbatim>\<open>thres = 2**-10\<close>. The three numbers are floats, their difference \<^verbatim>\<open>2**-34\<close> is computed
  without rounding, and it is less than a hundredth of the tolerance.
\<close>

theorem dep2adj_asymmetric_when_close_witness:
  "np_allclose exact_ops (of_rows [[0, 1 / 1024], [1 / 1024 + 1 / 17179869184, 0]])
     (np_T (of_rows [[0, 1 / 1024], [1 / 1024 + 1 / 17179869184, 0]]))
   \<and> (\<exists>adj. dep2adj exact_ops \<lparr>beta = 5 / 100, thres = 1 / 1024, verbose = True\<rparr>
               (of_rows [[0, 1 / 1024], [1 / 1024 + 1 / 17179869184, 0]]) = Inr adj
             \<and> entry adj 0 1 = 0 \<and> entry adj 1 0 = 1)"
proof -
  let ?self = "\<lparr>beta = 5 / 100, thres = 1 / 1024, verbose = True\<rparr>"
  let ?d = "of_rows [[0, 1 / 1024], [1 / 1024 + 1 / 17179869184, 0::real]]"
  have h: "shape0 ?d = 2" "shape1 ?d = 2" by (simp_all add: of_rows_def)
  have c: "np_allclose exact_ops ?d (np_T ?d)"
    by (simp add: np_allclose_def isclose_def exact_ops_simps np_T_def of_rows_def)
  have i: "(0::nat) < 2" "(1::nat) < 2" by simp_all
  have t: "\<bar>entry ?d 0 1\<bar> \<le> thres ?self" "thres ?self < \<bar>entry ?d 1 0\<bar>"
    by (simp_all add: of_rows_def)
  from dep2adj_asymmetric_when_close [OF h c i t] c show ?thesis by blast
qed

subsection \<open>The selector \<^verbatim>\<open>optimal_reg\<close>: closed forms of its loops\<close>

text \<open>Dicts.\<close>

lemma dict_set_fresh: "k \<notin> fst ` set d \<Longrightarrow> dict_set k v d = d @ [(k, v)]"
  by (induction d) auto

lemma map_of_dict_set: "map_of (dict_set k v d) = (map_of d)(k \<mapsto> v)"
  by (induction d) (auto simp: fun_eq_iff)

lemma keys_dict_set: "fst ` set (dict_set k v d) = insert k (fst ` set d)"
  by (induction d) auto

lemma set_dict_set: "set (dict_set k v d) \<subseteq> insert (k, v) (set d)"
  by (induction d) auto

lemma map_dict_set:
  "map (\<lambda>(k, v). (k, g v)) (dict_set k v d) = dict_set k (g v) (map (\<lambda>(k, v). (k, g v)) d)"
  by (induction d) (auto split: prod.splits)

lemma foldl_dict_set_map:
  "map (\<lambda>(k, v). (k, g v)) (foldl (\<lambda>d (k, v). dict_set k v d) d kvs)
     = foldl (\<lambda>d (k, v). dict_set k v d) (map (\<lambda>(k, v). (k, g v)) d) (map (\<lambda>(k, v). (k, g v)) kvs)"
  by (induction kvs arbitrary: d) (auto simp: map_dict_set split: prod.splits)

lemma dict_of_map: "map (\<lambda>(k, v). (k, g v)) (dict_of kvs) = dict_of (map (\<lambda>(k, v). (k, g v)) kvs)"
  by (simp add: dict_of_def foldl_dict_set_map)

lemma foldl_dict_set_keys:
  "fst ` set (foldl (\<lambda>d (k, v). dict_set k v d) d kvs) = fst ` set d \<union> fst ` set kvs"
proof (induction kvs arbitrary: d)
  case Nil
  show ?case by simp
next
  case (Cons kv kvs)
  obtain k v where kv: "kv = (k, v)" by (cases kv)
  have "fst ` set (foldl (\<lambda>d (k, v). dict_set k v d) (dict_set k v d) kvs)
          = insert k (fst ` set d) \<union> fst ` set kvs"
    by (simp only: Cons keys_dict_set)
  then show ?case by (simp add: kv)
qed

lemma keys_dict_of: "fst ` set (dict_of kvs) = fst ` set kvs"
  by (simp add: dict_of_def foldl_dict_set_keys)

lemma foldl_dict_set_set:
  "set (foldl (\<lambda>d (k, v). dict_set k v d) d kvs) \<subseteq> set d \<union> set kvs"
proof (induction kvs arbitrary: d)
  case Nil
  show ?case by simp
next
  case (Cons kv kvs)
  obtain k v where kv: "kv = (k, v)" by (cases kv)
  show ?case using Cons [of "dict_set k v d"] set_dict_set [of k v d] by (auto simp: kv)
qed

lemma set_dict_of: "set (dict_of kvs) \<subseteq> set kvs"
  using foldl_dict_set_set [of "[]" kvs] by (simp add: dict_of_def)

lemma foldl_dict_set_map_of:
  "map_of (foldl (\<lambda>d (k, v). dict_set k v d) d kvs) = map_of d ++ map_of (rev kvs)"
proof (induction kvs arbitrary: d)
  case Nil
  show ?case by simp
next
  case (Cons kv kvs)
  obtain k v where kv: "kv = (k, v)" by (cases kv)
  have "map_of (foldl (\<lambda>d (k, v). dict_set k v d) (dict_set k v d) kvs)
          = (map_of d)(k \<mapsto> v) ++ map_of (rev kvs)"
    by (simp only: Cons map_of_dict_set)
  also have "\<dots> = map_of d ++ map_of (rev kvs @ [(k, v)])"
    by (simp add: fun_eq_iff map_add_def split: option.splits)
  finally show ?case by (simp add: kv)
qed

lemma map_of_dict_of: "map_of (dict_of kvs) = map_of (rev kvs)"
  by (simp add: dict_of_def foldl_dict_set_map_of)

text \<open>Comprehensions and reductions that may raise.\<close>

lemma mapE_Inr: "(\<And>x. x \<in> set xs \<Longrightarrow> f x = Inr (g x)) \<Longrightarrow> mapE f xs = Inr (map g xs)"
  by (induction xs) auto

lemma dep2adj_projr:
  assumes "shape0 dep = p" "shape1 dep = p"
  shows "dep2adj ops self dep = Inr (projr (dep2adj ops self dep))"
    and "shape0 (projr (dep2adj ops self dep)) = p" and "shape1 (projr (dep2adj ops self dep)) = p"
proof -
  from dep2adj_square [OF assms, where ops = ops and self = self] obtain adj where
    "dep2adj ops self dep = Inr adj" "shape0 adj = p" "shape1 adj = p" by blast
  then show "dep2adj ops self dep = Inr (projr (dep2adj ops self dep))"
    and "shape0 (projr (dep2adj ops self dep)) = p" and "shape1 (projr (dep2adj ops self dep)) = p"
    by simp_all
qed

lemma foldE_np_add:
  assumes "shape0 a = p" "shape1 a = p" "\<forall>m\<in>set ms. shape0 m = p \<and> shape1 m = p"
  shows "\<exists>s. foldE np_add a ms = Inr s \<and> shape0 s = p \<and> shape1 s = p
           \<and> (\<forall>i<p. \<forall>j<p. entry s i j = entry a i j + sum_list (map (\<lambda>m. entry m i j) ms))"
  using assms
proof (induction ms arbitrary: a)
  case Nil
  then show ?case by simp
next
  case (Cons m ms)
  from Cons.prems have m: "shape0 m = p" "shape1 m = p" by simp_all
  from np_binary_same_shape [OF Cons.prems(1,2) m, of "(+)"] obtain c where
    c: "np_add a m = Inr c" "shape0 c = p" "shape1 c = p"
       "\<forall>i<p. \<forall>j<p. entry c i j = entry a i j + entry m i j"
    by (auto simp: np_add_def)
  have rest: "\<forall>m\<in>set ms. shape0 m = p \<and> shape1 m = p" using Cons.prems(3) by simp
  from Cons.IH [OF c(2,3) rest] obtain s where
    s: "foldE np_add c ms = Inr s" "shape0 s = p" "shape1 s = p"
       "\<forall>i<p. \<forall>j<p. entry s i j = entry c i j + sum_list (map (\<lambda>m. entry m i j) ms)"
    by blast
  have "\<forall>i<p. \<forall>j<p. entry s i j = entry a i j + sum_list (map (\<lambda>m. entry m i j) (m # ms))"
    using c(4) s(4) by simp
  with c(1) s(1-3) show ?case by simp
qed

lemma reduce_add_valid:
  assumes "ms \<noteq> []" "\<forall>m\<in>set ms. shape0 m = p \<and> shape1 m = p"
  shows "\<exists>s. reduce_add ms = Inr s \<and> shape0 s = p \<and> shape1 s = p
           \<and> (\<forall>i<p. \<forall>j<p. entry s i j = sum_list (map (\<lambda>m. entry m i j) ms))"
proof (cases ms)
  case Nil
  with assms show ?thesis by simp
next
  case (Cons a as)
  with assms have "shape0 a = p" "shape1 a = p" "\<forall>m\<in>set as. shape0 m = p \<and> shape1 m = p" by simp_all
  from foldE_np_add [OF this] show ?thesis using Cons by simp
qed

text \<open>On a valid input no step of lines 78 to 88 raises, and each loop has a closed form.\<close>

lemma valid_inputD:
  assumes "valid_input p rhos s2d"
  shows "s2d \<noteq> []" and "distinct (map fst s2d)"
    and "\<And>s deps. (s, deps) \<in> set s2d \<Longrightarrow> length deps = length rhos"
    and "\<And>s deps dep. (s, deps) \<in> set s2d \<Longrightarrow> dep \<in> set deps \<Longrightarrow> shape0 dep = p \<and> shape1 dep = p"
  using assms unfolding valid_input_def by auto

lemma mapE_dep2adj:
  assumes "\<And>dep. dep \<in> set deps \<Longrightarrow> shape0 dep = p \<and> shape1 dep = p"
  shows "mapE (dep2adj ops self) deps = Inr (map (\<lambda>dep. projr (dep2adj ops self dep)) deps)"
  by (rule mapE_Inr) (use assms dep2adj_projr(1) in blast)

lemma build_sample2adjs_valid:
  assumes "\<And>s deps dep. (s, deps) \<in> set s2d \<Longrightarrow> dep \<in> set deps \<Longrightarrow> shape0 dep = p \<and> shape1 dep = p"
    and "distinct (map fst s2d)" and "fst ` set acc \<inter> fst ` set s2d = {}"
  shows "build_sample2adjs ops self s2d acc = Inr (acc @ map (conv_item ops self) s2d)"
  using assms
proof (induction s2d arbitrary: acc)
  case Nil
  show ?case by simp
next
  case (Cons item rest)
  obtain s deps where item: "item = (s, deps)" by (cases item)
  have m: "mapE (dep2adj ops self) deps = Inr (map (\<lambda>dep. projr (dep2adj ops self dep)) deps)"
    by (rule mapE_dep2adj [where p = p]) (use Cons.prems(1) item in auto)
  have fresh: "s \<notin> fst ` set acc" using Cons.prems(3) item by auto
  let ?acc = "acc @ [conv_item ops self item]"
  have ds: "dict_set s (map (\<lambda>dep. projr (dep2adj ops self dep)) deps) acc = ?acc"
    using dict_set_fresh [OF fresh] by (simp add: conv_item_def item)
  have p1: "\<And>s deps dep. (s, deps) \<in> set rest \<Longrightarrow> dep \<in> set deps \<Longrightarrow> shape0 dep = p \<and> shape1 dep = p"
    using Cons.prems(1) by auto
  have p2: "distinct (map fst rest)" using Cons.prems(2) by simp
  have "s \<notin> fst ` set rest" using Cons.prems(2) item by auto
  then have p3: "fst ` set ?acc \<inter> fst ` set rest = {}"
    using Cons.prems(3) by (auto simp: conv_item_def item)
  have "build_sample2adjs ops self (item # rest) acc = build_sample2adjs ops self rest ?acc"
    by (simp add: item m ds [unfolded item])
  also have "\<dots> = Inr (?acc @ map (conv_item ops self) rest)"
    by (rule Cons.IH [OF p1 p2 p3])
  finally show ?case by simp
qed

lemma column_valid:
  assumes "\<And>s deps. (s, deps) \<in> set s2d \<Longrightarrow> i < length deps"
  shows "mapE (getitem i) (map snd (map (conv_item ops self) s2d)) = Inr (adjs_at ops self s2d i)"
proof -
  have "mapE (getitem i) (map snd (map (conv_item ops self) s2d))
          = Inr (map (\<lambda>vals. vals ! i) (map snd (map (conv_item ops self) s2d)))"
    by (rule mapE_Inr) (use assms in \<open>auto simp: getitem_def conv_item_def\<close>)
  also have "map (\<lambda>vals. vals ! i) (map snd (map (conv_item ops self) s2d)) = adjs_at ops self s2d i"
    using assms by (auto simp: adjs_at_def conv_item_def)
  finally show ?thesis .
qed

lemma adjs_at_shapes:
  assumes "valid_input p rhos s2d" "i < length rhos" "m \<in> set (adjs_at ops self s2d i)"
  shows "shape0 m = p \<and> shape1 m = p"
proof -
  from assms(3) obtain s deps where sd: "(s, deps) \<in> set s2d" and m: "m = projr (dep2adj ops self (deps ! i))"
    by (auto simp: adjs_at_def)
  have "i < length deps" using valid_inputD(3) [OF assms(1) sd] assms(2) by simp
  then have "deps ! i \<in> set deps" by simp
  then have "shape0 (deps ! i) = p" "shape1 (deps ! i) = p"
    using valid_inputD(4) [OF assms(1) sd] by auto
  then show ?thesis using dep2adj_projr(2,3) m by blast
qed

lemma sum_adj_valid:
  assumes "valid_input p rhos s2d" "i < length rhos"
  shows "reduce_add (adjs_at ops self s2d i) = Inr (projr (reduce_add (adjs_at ops self s2d i)))"
    and "shape0 (projr (reduce_add (adjs_at ops self s2d i))) = p"
    and "shape1 (projr (reduce_add (adjs_at ops self s2d i))) = p"
    and "\<And>r c. r < p \<Longrightarrow> c < p \<Longrightarrow>
           entry (projr (reduce_add (adjs_at ops self s2d i))) r c
             = sum_list (map (\<lambda>m. entry m r c) (adjs_at ops self s2d i))"
proof -
  have ne: "adjs_at ops self s2d i \<noteq> []"
    using valid_inputD(1) [OF assms(1)] by (simp add: adjs_at_def)
  have sh: "\<forall>m\<in>set (adjs_at ops self s2d i). shape0 m = p \<and> shape1 m = p"
    using adjs_at_shapes [OF assms] by blast
  from reduce_add_valid [OF ne sh] obtain s where
    s: "reduce_add (adjs_at ops self s2d i) = Inr s" "shape0 s = p" "shape1 s = p"
       "\<forall>r<p. \<forall>c<p. entry s r c = sum_list (map (\<lambda>m. entry m r c) (adjs_at ops self s2d i))"
    by blast
  show "reduce_add (adjs_at ops self s2d i) = Inr (projr (reduce_add (adjs_at ops self s2d i)))"
    and "shape0 (projr (reduce_add (adjs_at ops self s2d i))) = p"
    and "shape1 (projr (reduce_add (adjs_at ops self s2d i))) = p"
    using s(1-3) by simp_all
  show "entry (projr (reduce_add (adjs_at ops self s2d i))) r c
             = sum_list (map (\<lambda>m. entry m r c) (adjs_at ops self s2d i))" if "r < p" "c < p" for r c
    using s(1,4) that by simp
qed

lemma build_rho2adjs_valid:
  assumes v: "valid_input p rhos s2d" and ix: "\<forall>ir\<in>set ixs. fst ir < length rhos"
  shows "build_rho2adjs (map (conv_item ops self) s2d) ixs acc
           = Inr (foldl (\<lambda>d (k, v). dict_set k v d) acc
                    (map (\<lambda>(i, rho). (rho, projr (reduce_add (adjs_at ops self s2d i)))) ixs))"
  using ix
proof (induction ixs arbitrary: acc)
  case Nil
  show ?case by simp
next
  case (Cons ir ixs)
  obtain i rho where ir: "ir = (i, rho)" by (cases ir)
  have i: "i < length rhos" using Cons.prems ir by auto
  have col: "mapE (getitem i) (map snd (map (conv_item ops self) s2d)) = Inr (adjs_at ops self s2d i)"
    by (rule column_valid) (use valid_inputD(3) [OF v] i in auto)
  have rest: "\<forall>ir\<in>set ixs. fst ir < length rhos" using Cons.prems by auto
  obtain s where red: "reduce_add (adjs_at ops self s2d i) = Inr s"
    using sum_adj_valid(1) [OF v i, where ops = ops and self = self] ..
  have s: "projr (reduce_add (adjs_at ops self s2d i)) = s" by (simp add: red)
  have "build_rho2adjs (map (conv_item ops self) s2d) (ir # ixs) acc
          = build_rho2adjs (map (conv_item ops self) s2d) ixs (dict_set rho s acc)"
    unfolding ir build_rho2adjs.simps col sum.case red ..
  also have "\<dots> = Inr (foldl (\<lambda>d (k, v). dict_set k v d) (dict_set rho s acc)
                    (map (\<lambda>(i, rho). (rho, projr (reduce_add (adjs_at ops self s2d i)))) ixs))"
    by (rule Cons.IH [OF rest])
  finally show ?case by (simp add: ir s)
qed

lemma enumerate_bound: "\<forall>ir\<in>set (enumerate 0 rhos). fst ir < length rhos"
  by (auto simp: in_set_enumerate_eq)

lemma mean_adj_at_shape:
  assumes "valid_input p rhos s2d" "i < length rhos"
  shows "shape0 (mean_adj_at ops self s2d i) = p" "shape1 (mean_adj_at ops self s2d i) = p"
  using sum_adj_valid(2,3) [OF assms, where ops = ops and self = self] by (simp_all add: mean_adj_at_def np_div_scalar_def)

lemma rho2mean_adj_of_valid:
  assumes v: "valid_input p rhos s2d"
  shows "rho2mean_adj_of ops self rhos s2d
           = Inr (dict_of (map (\<lambda>(i, rho). (rho, mean_adj_at ops self s2d i)) (enumerate 0 rhos)))"
proof -
  have len: "list_all (\<lambda>deps. length rhos = length deps) (map snd s2d)"
    using valid_inputD(3) [OF v] by (fastforce simp: list_all_iff)
  have b1: "build_sample2adjs ops self s2d [] = Inr (map (conv_item ops self) s2d)"
    using build_sample2adjs_valid [where s2d = s2d and acc = "[]" and self = self and p = p,
            OF valid_inputD(4) [OF v] valid_inputD(2) [OF v]]
    by simp
  have b2: "build_rho2adjs (map (conv_item ops self) s2d) (enumerate 0 rhos) []
              = Inr (dict_of (map (\<lambda>(i, rho). (rho, projr (reduce_add (adjs_at ops self s2d i)))) (enumerate 0 rhos)))"
    unfolding dict_of_def by (rule build_rho2adjs_valid [OF v enumerate_bound])
  let ?g = "\<lambda>adj. np_div_scalar ops adj (real (length s2d))"
  have "rho2mean_adj_of ops self rhos s2d
          = Inr (map (\<lambda>(rho, adj). (rho, ?g adj))
                  (dict_of (map (\<lambda>(i, rho). (rho, projr (reduce_add (adjs_at ops self s2d i)))) (enumerate 0 rhos))))"
    unfolding rho2mean_adj_of_def using len by (simp add: b1 b2)
  also have "\<dots> = Inr (dict_of (map (\<lambda>(k, v). (k, ?g v))
                  (map (\<lambda>(i, rho). (rho, projr (reduce_add (adjs_at ops self s2d i)))) (enumerate 0 rhos))))"
    by (simp only: dict_of_map)
  also have "map (\<lambda>(k, v). (k, ?g v))
                  (map (\<lambda>(i, rho). (rho, projr (reduce_add (adjs_at ops self s2d i)))) (enumerate 0 rhos))
             = map (\<lambda>(i, rho). (rho, mean_adj_at ops self s2d i)) (enumerate 0 rhos)"
    by (auto simp: mean_adj_at_def)
  finally show ?thesis .
qed

lemma rho2var_of_valid:
  assumes v: "valid_input p rhos s2d"
  shows "rho2var_of ops self rhos s2d
           = Inr (dict_of (map (\<lambda>(i, rho). (rho, score_at ops self s2d i)) (enumerate 0 rhos)))"
proof -
  let ?kvs = "map (\<lambda>(i, rho). (rho, mean_adj_at ops self s2d i)) (enumerate 0 rhos)"
  let ?f = "\<lambda>(rho, mean_adj). case adj_var ops mean_adj of Inl e \<Rightarrow> Inl e | Inr var \<Rightarrow> Inr (rho, var)"
  let ?g = "\<lambda>(k, v). (k, projr (adj_var ops v))"
  have each: "?f x = Inr (?g x)" if "x \<in> set (dict_of ?kvs)" for x
  proof -
    from that set_dict_of have "x \<in> set ?kvs" by blast
    then obtain i rho where x: "x = (rho, mean_adj_at ops self s2d i)" and i: "i < length rhos"
      by (auto simp: in_set_enumerate_eq)
    have "adj_var ops (mean_adj_at ops self s2d i) = Inr (projr (adj_var ops (mean_adj_at ops self s2d i)))"
      by (rule adj_var_defined [OF mean_adj_at_shape [OF v i]])
    then obtain var where var: "adj_var ops (mean_adj_at ops self s2d i) = Inr var" ..
    show ?thesis by (simp add: x var)
  qed
  have "rho2var_of ops self rhos s2d = mapE ?f (dict_of ?kvs)"
    by (simp add: rho2var_of_def rho2mean_adj_of_valid [OF v])
  also have "\<dots> = Inr (map ?g (dict_of ?kvs))"
    by (rule mapE_Inr) (rule each)
  also have "map ?g (dict_of ?kvs) = dict_of (map ?g ?kvs)"
    by (rule dict_of_map)
  also have "map ?g ?kvs = map (\<lambda>(i, rho). (rho, score_at ops self s2d i)) (enumerate 0 rhos)"
    by (auto simp: score_at_def)
  finally show ?thesis .
qed

lemma rho2mean_adj_of_mismatch:
  assumes "(s, deps) \<in> set s2d" "length deps \<noteq> length rhos"
  shows "rho2mean_adj_of ops self rhos s2d = Inl AssertMissing"
proof -
  have "\<not> list_all (\<lambda>deps. length rhos = length deps) (map snd s2d)"
    using assms by (force simp: list_all_iff)
  then show ?thesis by (simp add: rho2mean_adj_of_def)
qed

lemma build_rho2adjs_no_samples:
  "build_rho2adjs [] ixs acc = (if ixs = [] then Inr acc else Inl TypeError)"
  by (cases ixs) auto

lemma enumerate_Nil_iff: "enumerate n xs = [] \<longleftrightarrow> xs = []"
  by (cases xs) simp_all

lemma rho2var_of_no_samples:
  "rho2var_of ops self rhos [] = (if rhos = [] then Inr [] else Inl TypeError)"
  by (simp add: rho2var_of_def rho2mean_adj_of_def build_rho2adjs_no_samples enumerate_Nil_iff)

lemma adj_var_cong:
  assumes "shape0 a = p" "shape1 a = p" "shape0 b = p" "shape1 b = p"
    and eq: "\<And>i j. i < p \<Longrightarrow> j < p \<Longrightarrow> entry a i j = entry b i j"
  shows "adj_var ops a = adj_var ops b"
proof -
  have "map (\<lambda>(x, y). fmul ops (fmul ops 2 (entry a x y)) (fsub ops 1 (entry a x y))) (triu_indices p)
          = map (\<lambda>(x, y). fmul ops (fmul ops 2 (entry b x y)) (fsub ops 1 (entry b x y))) (triu_indices p)"
    by (rule map_cong [OF refl]) (auto simp: set_triu_indices upper_pairs_def eq)
  then show ?thesis
    unfolding adj_var_def Let_def assms(1-4) by (simp only:)
qed

lemma mean_adj_at_entry:
  assumes "valid_input p rhos s2d" "i < length rhos" "r < p" "c < p"
  shows "entry (mean_adj_at ops self s2d i) r c
           = fdiv ops (real_of_int (\<Sum>item\<leftarrow>s2d. entry (projr (dep2adj ops self (snd item ! i))) r c))
                      (real (length s2d))"
proof -
  have "sum_list (map (\<lambda>m. entry m r c) (adjs_at ops self s2d i))
          = (\<Sum>item\<leftarrow>s2d. entry (projr (dep2adj ops self (snd item ! i))) r c)"
    by (simp add: adjs_at_def comp_def case_prod_unfold)
  then show ?thesis
    using sum_adj_valid(4) [OF assms, where ops = ops and self = self] by (simp add: mean_adj_at_def np_div_scalar_def)
qed

lemma valid_input_mset:
  assumes "valid_input p rhos s2d" "mset s2d' = mset s2d"
  shows "valid_input p rhos s2d'"
proof -
  have set: "set s2d' = set s2d" using assms(2) by (rule mset_eq_setD)
  have "mset (map fst s2d') = mset (map fst s2d)" using assms(2) by (metis mset_map)
  then have "distinct (map fst s2d') = distinct (map fst s2d)" by (rule mset_eq_imp_distinct_iff)
  moreover have "s2d' \<noteq> []" using assms by (auto simp: valid_input_def)
  ultimately show ?thesis using assms(1) set by (simp add: valid_input_def)
qed

lemma sum_list_map_mset:
  fixes f :: "'a \<Rightarrow> int"
  assumes "mset xs = mset ys"
  shows "sum_list (map f xs) = sum_list (map f ys)"
proof -
  have "sum_mset (mset (map f xs)) = sum_mset (mset (map f ys))"
    using assms by simp
  then show ?thesis by (simp only: sum_mset_sum_list)
qed

lemma score_at_mset:
  assumes v: "valid_input p rhos s2d" and m: "mset s2d' = mset s2d" and i: "i < length rhos"
  shows "score_at ops self s2d' i = score_at ops self s2d i"
proof -
  have v': "valid_input p rhos s2d'" by (rule valid_input_mset [OF v m])
  have len: "length s2d' = length s2d" using m by (metis size_mset)
  have sums: "(\<Sum>item\<leftarrow>s2d'. entry (projr (dep2adj ops self (snd item ! i))) r c)
                = (\<Sum>item\<leftarrow>s2d. entry (projr (dep2adj ops self (snd item ! i))) r c)" for r c
    by (rule sum_list_map_mset [OF m])
  have "adj_var ops (mean_adj_at ops self s2d' i) = adj_var ops (mean_adj_at ops self s2d i)"
    by (rule adj_var_cong [OF mean_adj_at_shape [OF v' i] mean_adj_at_shape [OF v i]])
       (simp add: mean_adj_at_entry [OF v' i] mean_adj_at_entry [OF v i] sums len)
  then show ?thesis by (simp add: score_at_def)
qed

lemma rho2var_of_mset:
  assumes v: "valid_input p rhos s2d" and m: "mset s2d' = mset s2d"
  shows "rho2var_of ops self rhos s2d' = rho2var_of ops self rhos s2d"
proof -
  have "map (\<lambda>(i, rho). (rho, score_at ops self s2d' i)) (enumerate 0 rhos)
          = map (\<lambda>(i, rho). (rho, score_at ops self s2d i)) (enumerate 0 rhos)"
  proof (rule map_cong [OF refl])
    fix x assume "x \<in> set (enumerate 0 rhos)"
    then have "fst x < length rhos" by (simp add: in_set_enumerate_eq)
    from score_at_mset [OF v m this, where ops = ops and self = self]
    show "(case x of (i, rho) \<Rightarrow> (rho, score_at ops self s2d' i))
            = (case x of (i, rho) \<Rightarrow> (rho, score_at ops self s2d i))"
      by (simp add: case_prod_unfold)
  qed
  then show ?thesis
    by (simp only: rho2var_of_valid [OF v] rho2var_of_valid [OF valid_input_mset [OF v m]])
qed

lemma map_of_dict_of_distinct:
  assumes "distinct (map fst kvs)" "(k, v) \<in> set kvs"
  shows "map_of (dict_of kvs) k = Some v"
proof -
  have "distinct (map fst (rev kvs))" using assms(1) by (simp add: rev_map [symmetric])
  moreover have "(k, v) \<in> set (rev kvs)" using assms(2) by simp
  ultimately have "map_of (rev kvs) k = Some v" by (rule map_of_is_SomeI)
  then show ?thesis by (simp add: map_of_dict_of)
qed

lemma enumerate_item:
  assumes "i < length rhos"
  shows "(rhos ! i, f i) \<in> set (map (\<lambda>(i, rho). (rho, f i)) (enumerate 0 rhos))"
proof -
  have "(i, rhos ! i) \<in> set (enumerate 0 rhos)" using assms by (simp add: in_set_enumerate_eq)
  then show ?thesis by force
qed

lemma enumerate_keys: "map fst (map (\<lambda>(i, rho). (rho, f i)) (enumerate 0 rhos)) = rhos"
proof -
  have "map fst (map (\<lambda>(i, rho). (rho, f i)) (enumerate 0 rhos)) = map snd (enumerate 0 rhos)"
    by (simp add: case_prod_unfold comp_def)
  then show ?thesis by simp
qed

lemma foldl_fmin_Fin: "foldl fmin (Fin x) (map Fin ys) = Fin (fold min ys x)"
  by (induction ys arbitrary: x) (simp_all add: min.commute)

lemma np_min_Fin: "vs \<noteq> [] \<Longrightarrow> np_min (map Fin vs) = Inr (Fin (Min (set vs)))"
proof (cases vs)
  case Nil
  then show "vs \<noteq> [] \<Longrightarrow> ?thesis" by simp
next
  case (Cons x xs)
  then show ?thesis by (simp add: foldl_fmin_Fin Min.set_eq_fold [symmetric])
qed

lemma foldl_fmin_NaN_left: "foldl fmin NaN xs = NaN"
  by (induction xs) simp_all

lemma foldl_fmin_NaN: "NaN \<in> set xs \<Longrightarrow> foldl fmin x xs = NaN"
proof (induction xs arbitrary: x)
  case Nil
  then show ?case by simp
next
  case (Cons y ys)
  show ?case
  proof (cases "y = NaN")
    case True
    have "fmin x NaN = NaN" by (cases x) simp_all
    then show ?thesis by (simp add: True foldl_fmin_NaN_left)
  next
    case False
    with Cons.prems have "NaN \<in> set ys" by simp
    then show ?thesis by (simp add: Cons.IH)
  qed
qed

lemma np_min_NaN: "NaN \<in> set vs \<Longrightarrow> np_min vs = Inr NaN"
proof (cases vs)
  case Nil
  then show "NaN \<in> set vs \<Longrightarrow> ?thesis" by simp
next
  case (Cons x xs)
  assume "NaN \<in> set vs"
  then have "x = NaN \<or> NaN \<in> set xs" using Cons by auto
  then show ?thesis
    using Cons by (auto simp: foldl_fmin_NaN_left foldl_fmin_NaN)
qed

lemma candidates_finite:
  fixes rv :: "(real \<times> npfloat) list"
  assumes "list_all (\<lambda>(r, v). r \<le> rho \<longrightarrow> v \<noteq> NaN) rv"
  shows "[var. (lambd, var) \<leftarrow> rv, lambd \<le> rho] = map Fin [v. (r, Fin v) \<leftarrow> rv, r \<le> rho]"
  using assms
proof (induction rv)
  case Nil
  show ?case by simp
next
  case (Cons kv rv)
  obtain r v where kv: "kv = (r, v)" by (cases kv)
  show ?case
  proof (cases v)
    case (Fin x)
    with Cons kv show ?thesis by simp
  next
    case NaN
    with Cons.prems kv have "\<not> r \<le> rho" by simp
    with Cons kv NaN show ?thesis by simp
  qed
qed

lemma candidates_NaN:
  fixes rv :: "(real \<times> npfloat) list"
  assumes "\<not> list_all (\<lambda>(r, v). r \<le> rho \<longrightarrow> v \<noteq> NaN) rv"
  shows "NaN \<in> set [var. (lambd, var) \<leftarrow> rv, lambd \<le> rho]"
proof -
  from assms obtain r where "(r, NaN) \<in> set rv" "r \<le> rho"
    by (auto simp: list_all_iff)
  then show ?thesis by force
qed

lemma candidates_nonempty:
  fixes rv :: "(real \<times> npfloat) list"
  assumes "rho \<in> fst ` set rv"
  shows "[var. (lambd, var) \<leftarrow> rv, lambd \<le> rho] \<noteq> []"
proof -
  from assms obtain v where "(rho, v) \<in> set rv" by auto
  then have "v \<in> set [var. (lambd, var) \<leftarrow> rv, lambd \<le> rho]" by force
  then show ?thesis by (metis empty_iff empty_set)
qed

lemma fle_np_min:
  fixes rv :: "(real \<times> npfloat) list"
  assumes "rho \<in> fst ` set rv"
  shows "\<exists>min_var. np_min [var. (lambd, var) \<leftarrow> rv, lambd \<le> rho] = Inr min_var
           \<and> (fle min_var b \<longleftrightarrow> stable_at b rv rho)"
proof (cases "list_all (\<lambda>(r, v). r \<le> rho \<longrightarrow> v \<noteq> NaN) rv")
  case True
  let ?ws = "[v. (r, Fin v) \<leftarrow> rv, r \<le> rho]"
  have c: "[var. (lambd, var) \<leftarrow> rv, lambd \<le> rho] = map Fin ?ws"
    by (rule candidates_finite [OF True])
  have "?ws \<noteq> []" using candidates_nonempty [OF assms] unfolding c by simp
  then have "np_min (map Fin ?ws) = Inr (Fin (Min (set ?ws)))" by (rule np_min_Fin)
  then show ?thesis
    unfolding c by (simp add: stable_at_def running_min_def True)
next
  case False
  have "np_min [var. (lambd, var) \<leftarrow> rv, lambd \<le> rho] = Inr NaN"
    by (rule np_min_NaN [OF candidates_NaN [OF False]])
  then show ?thesis by (simp add: stable_at_def False)
qed

lemma scan_step:
  assumes "rho \<in> fst ` set rv"
  shows "scan b rv (rho # rest) = (if stable_at b rv rho then Inr (Some rho) else scan b rv rest)"
proof -
  from fle_np_min [OF assms, of b] obtain min_var where
    "np_min [var. (lambd, var) \<leftarrow> rv, lambd \<le> rho] = Inr min_var" "fle min_var b \<longleftrightarrow> stable_at b rv rho"
    by blast
  then show ?thesis by simp
qed


lemma scan_none:
  assumes keys: "set srt \<subseteq> fst ` set rv" and none: "\<forall>rho\<in>set srt. \<not> stable_at b rv rho"
  shows "scan b rv srt = Inr None"
  using keys none
proof (induction srt)
  case Nil
  show ?case by simp
next
  case (Cons rho rest)
  have key: "rho \<in> fst ` set rv" using Cons.prems(1) by auto
  from Cons show ?case by (simp add: scan_step [OF key] del: scan.simps)
qed

lemma rho2var_keys:
  assumes v: "valid_input p rhos s2d" and rv: "rho2var_of ops self rhos s2d = Inr rv"
  shows "fst ` set rv = set rhos"
proof -
  let ?kvs = "map (\<lambda>(i, rho). (rho, score_at ops self s2d i)) (enumerate 0 rhos)"
  have rv': "rv = dict_of ?kvs" using rv rho2var_of_valid [OF v, where ops = ops and self = self] by simp
  have "fst ` set ?kvs = set (map fst ?kvs)" by (rule set_map [symmetric])
  also have "\<dots> = set rhos" by (simp only: enumerate_keys)
  finally show ?thesis by (simp add: rv' keys_dict_of)
qed

subsection \<open>The selector \<^verbatim>\<open>optimal_reg\<close>: the claims\<close>



text \<open>
  Claim C2, as stated, has the fallback return the second-largest of the distinct values and
  fail on a path with fewer than two distinct values. The source indexes the sorted list
  itself, duplicates included: on \<open>[0.1, 0.5, 0.5]\<close> the fallback returns 0.5, not 0.1, and on
  \<open>[0.5, 0.5]\<close> it returns 0.5 instead of failing. (On these inputs every mean adjacency entry
  is 0, \<open>1/2\<close> or 1 and every score is \<open>0.5\<close>, which the floats compute without rounding.)
\<close>

theorem optimal_reg_fallback_counterexample:
  "optimal_reg exact_ops example_self [1 / 10, 1 / 2, 1 / 2] unstable_samples
     = (Inr (1 / 2), [Warn (1 / 2), Print (1 / 2)])
   \<and> second_largest_distinct [1 / 10, 1 / 2, 1 / 2] = 1 / 10
   \<and> optimal_reg exact_ops example_self [1 / 2, 1 / 2]
        [(''a'', [all_edges, all_edges]), (''b'', [no_edges, no_edges])]
     = (Inr (1 / 2), [Warn (1 / 2), Print (1 / 2)])
   \<and> length (remdups [1 / 2, 1 / 2 :: real]) = 1"
  by code_simp

text \<open>
  Claim C2, amended. On a valid input, whatever the rounding of the float operations, with
  \<open>rho2var\<close> the scores that lines 78 to 88 compute: if no candidate is stable (no running
  minimum is a number at most \<^verbatim>\<open>beta\<close>), then, when the path has at least two elements,
  \<^verbatim>\<open>optimal_reg\<close> returns the second-to-last element of the sorted path (duplicates kept) and
  issues the warning with that value before the optional print; when the path has fewer than
  two elements, it raises \<^verbatim>\<open>IndexError\<close> and issues nothing.
\<close>

theorem optimal_reg_fallback:
  assumes "valid_input p rhos sample2deps"
    and "rho2var_of ops self rhos sample2deps = Inr rho2var"
    and "\<forall>rho\<in>set rhos. \<not> stable_at (beta self) rho2var rho"
  shows "optimal_reg ops self rhos sample2deps
           = (if 2 \<le> length rhos
              then (Inr (sort rhos ! (length rhos - 2)),
                    Warn (sort rhos ! (length rhos - 2))
                      # (if verbose self then [Print (sort rhos ! (length rhos - 2))] else []))
              else (Inl IndexError, []))"
proof -
  have keys: "set (sort rhos) \<subseteq> fst ` set rho2var"
    using rho2var_keys [OF assms(1,2)] by simp
  have none: "\<forall>rho\<in>set (sort rhos). \<not> stable_at (beta self) rho2var rho" using assms(3) by simp
  from scan_none [OF keys none] show ?thesis
    by (simp add: optimal_reg_def assms(2) select_rho_def printed_def Let_def)
qed

text \<open>
  Two instances: scores of \<open>1/2\<close> at every value of a path of three, and matrices over a
  single feature, whose scores are not numbers, on a path of two.
\<close>

theorem optimal_reg_fallback_witness:
  "valid_input 3 [1 / 2, 1 / 10, 3 / 10] unstable_samples
   \<and> rho2var_of exact_ops example_self [1 / 2, 1 / 10, 3 / 10] unstable_samples
       = Inr [(1 / 2, Fin (1 / 2)), (1 / 10, Fin (1 / 2)), (3 / 10, Fin (1 / 2))]
   \<and> \<not> stable_at (beta example_self) [(1 / 2, Fin (1 / 2)), (1 / 10, Fin (1 / 2)), (3 / 10, Fin (1 / 2))] (1 / 2)
   \<and> \<not> stable_at (beta example_self) [(1 / 2, Fin (1 / 2)), (1 / 10, Fin (1 / 2)), (3 / 10, Fin (1 / 2))] (1 / 10)
   \<and> \<not> stable_at (beta example_self) [(1 / 2, Fin (1 / 2)), (1 / 10, Fin (1 / 2)), (3 / 10, Fin (1 / 2))] (3 / 10)
   \<and> optimal_reg exact_ops example_self [1 / 2, 1 / 10, 3 / 10] unstable_samples
       = (Inr (3 / 10), [Warn (3 / 10), Print (3 / 10)])
   \<and> valid_input 1 [1 / 2, 1 / 10] [(''a'', [of_rows [[0]], of_rows [[0]]])]
   \<and> rho2var_of exact_ops example_self [1 / 2, 1 / 10] [(''a'', [of_rows [[0]], of_rows [[0]]])]
       = Inr [(1 / 2, NaN), (1 / 10, NaN)]
   \<and> optimal_reg exact_ops example_self [1 / 2, 1 / 10] [(''a'', [of_rows [[0]], of_rows [[0]]])]
       = (Inr (1 / 10), [Warn (1 / 10), Print (1 / 10)])"
proof -
  let ?rhos = "[1 / 2, 1 / 10, 3 / 10] :: real list"
  let ?rv = "[(1 / 2, Fin (1 / 2)), (1 / 10, Fin (1 / 2)), (3 / 10, Fin (1 / 2))]"
  have v: "valid_input 3 ?rhos unstable_samples"
    by (simp add: valid_input_def unstable_samples_def no_edges_def all_edges_def of_rows_def)
  have rv: "rho2var_of exact_ops example_self ?rhos unstable_samples = Inr ?rv"
    by code_simp
  have n1: "\<not> stable_at (beta example_self) ?rv (1 / 2)"
    and n2: "\<not> stable_at (beta example_self) ?rv (1 / 10)"
    and n3: "\<not> stable_at (beta example_self) ?rv (3 / 10)"
    by code_simp+
  have none: "\<forall>rho\<in>set ?rhos. \<not> stable_at (beta example_self) ?rv rho"
    using n1 n2 n3 by simp
  from optimal_reg_fallback [OF v rv none]
  have r: "optimal_reg exact_ops example_self ?rhos unstable_samples
             = (Inr (3 / 10), [Warn (3 / 10), Print (3 / 10)])"
    by (simp add: example_self_def)
  let ?rhos1 = "[1 / 2, 1 / 10] :: real list"
  let ?s1 = "[(''a'', [of_rows [[0]], of_rows [[0 :: real]]])]"
  let ?rv1 = "[(1 / 2, NaN), (1 / 10, NaN)]"
  have v1: "valid_input 1 ?rhos1 ?s1"
    by (simp add: valid_input_def of_rows_def)
  have rv1: "rho2var_of exact_ops example_self ?rhos1 ?s1 = Inr ?rv1"
    by code_simp
  have none1: "\<forall>rho\<in>set ?rhos1. \<not> stable_at (beta example_self) ?rv1 rho"
    by (simp add: stable_at_def)
  from optimal_reg_fallback [OF v1 rv1 none1]
  have r1: "optimal_reg exact_ops example_self ?rhos1 ?s1 = (Inr (1 / 10), [Warn (1 / 10), Print (1 / 10)])"
    by (simp add: example_self_def)
  from v rv n1 n2 n3 r v1 rv1 r1 show ?thesis by blast
qed

text \<open>
  Claim C7, as stated, has the mean adjacency used for \<open>rhos[i]\<close> built from the \<open>i\<close>-th
  matrices at every position, duplicates in the path included. The source computes the sum by
  position but stores it under the key \<open>rho\<close>: on the path \<open>[0.5, 0.5]\<close> the entry of the dict
  for \<open>rhos[0]\<close> holds the mean of the matrices of position 1.
\<close>

theorem rho2mean_adj_duplicate_counterexample:
  "(case rho2mean_adj_of exact_ops example_self [1/2, 1/2] [(''a'', [no_edges, all_edges])] of
      Inr rho2mean_adj \<Rightarrow>
        (case map_of rho2mean_adj ([1/2, 1/2] ! 0) of Some mean_adj \<Rightarrow> entry mean_adj 0 1 = 1 | None \<Rightarrow> False)
    | Inl e \<Rightarrow> False)
   \<and> fdiv exact_ops
         (real_of_int (\<Sum>(sample, deps)\<leftarrow>[(''a'', [no_edges, all_edges])].
                         entry (projr (dep2adj exact_ops example_self (deps ! 0))) 0 1))
         (real (length [(''a'', [no_edges, all_edges])])) = 0"
  by code_simp

text \<open>
  Claim C7, amended. On a valid input whose path has no duplicate value (sorted or not), for
  every position \<open>i\<close> the mean adjacency stored for \<open>rhos[i]\<close> is, entry by entry, the sum over
  the subsamples of the adjacency matrix of their \<open>i\<close>-th dependency matrix divided by the
  number of subsamples, and the score stored for \<open>rhos[i]\<close> is \<^verbatim>\<open>_adj_var\<close> of that mean. The
  division is the float division of line 87, whatever its rounding; in exact arithmetic it
  is the division of the reals.
\<close>

theorem rho2mean_adj_by_position:
  assumes "valid_input p rhos sample2deps" and "distinct rhos" and "i < length rhos"
  shows "\<exists>rho2mean_adj mean_adj.
           rho2mean_adj_of ops self rhos sample2deps = Inr rho2mean_adj
         \<and> map_of rho2mean_adj (rhos ! i) = Some mean_adj
         \<and> shape0 mean_adj = p \<and> shape1 mean_adj = p
         \<and> (\<forall>r<p. \<forall>c<p. entry mean_adj r c
               = fdiv ops (real_of_int (\<Sum>(sample, deps)\<leftarrow>sample2deps.
                                           entry (projr (dep2adj ops self (deps ! i))) r c))
                          (real (length sample2deps)))
         \<and> (\<exists>rho2var var. rho2var_of ops self rhos sample2deps = Inr rho2var
               \<and> map_of rho2var (rhos ! i) = Some var \<and> adj_var ops mean_adj = Inr var)"
proof -
  let ?m = "mean_adj_at ops self sample2deps i"
  let ?d = "dict_of (map (\<lambda>(i, rho). (rho, mean_adj_at ops self sample2deps i)) (enumerate 0 rhos))"
  let ?rv = "dict_of (map (\<lambda>(i, rho). (rho, score_at ops self sample2deps i)) (enumerate 0 rhos))"
  have d: "rho2mean_adj_of ops self rhos sample2deps = Inr ?d"
    by (rule rho2mean_adj_of_valid [OF assms(1)])
  have rv: "rho2var_of ops self rhos sample2deps = Inr ?rv"
    by (rule rho2var_of_valid [OF assms(1)])
  have look: "map_of ?d (rhos ! i) = Some ?m"
    by (rule map_of_dict_of_distinct) (simp_all only: enumerate_keys assms(2) enumerate_item [OF assms(3)])
  have look': "map_of ?rv (rhos ! i) = Some (score_at ops self sample2deps i)"
    by (rule map_of_dict_of_distinct) (simp_all only: enumerate_keys assms(2) enumerate_item [OF assms(3)])
  have sh: "shape0 ?m = p" "shape1 ?m = p"
    by (rule mean_adj_at_shape [OF assms(1,3)])+
  have en: "\<forall>r<p. \<forall>c<p. entry ?m r c
               = fdiv ops (real_of_int (\<Sum>(sample, deps)\<leftarrow>sample2deps.
                                           entry (projr (dep2adj ops self (deps ! i))) r c))
                          (real (length sample2deps))"
    using mean_adj_at_entry [OF assms(1,3), where ops = ops and self = self] by (simp add: case_prod_unfold)
  have av: "adj_var ops ?m = Inr (score_at ops self sample2deps i)"
    using adj_var_defined [OF sh] by (simp add: score_at_def)
  show ?thesis using d look sh en rv look' av by blast
qed

theorem rho2mean_adj_by_position_witness:
  "valid_input 3 [1 / 2, 1 / 10, 3 / 10] example_samples \<and> distinct [1 / 2, 1 / 10, 3 / 10 :: real]
   \<and> (1::nat) < length [1 / 2, 1 / 10, 3 / 10 :: real]
   \<and> (\<exists>rho2mean_adj mean_adj.
         rho2mean_adj_of exact_ops example_self [1 / 2, 1 / 10, 3 / 10] example_samples = Inr rho2mean_adj
       \<and> map_of rho2mean_adj (1 / 10) = Some mean_adj
       \<and> entry mean_adj 0 1 = 1 / 2 \<and> adj_var exact_ops mean_adj = Inr (Fin (1 / 2)))"
proof -
  let ?rhos = "[1 / 2, 1 / 10, 3 / 10] :: real list"
  have v: "valid_input 3 ?rhos example_samples"
    by (simp add: valid_input_def example_samples_def no_edges_def all_edges_def of_rows_def)
  have d: "distinct ?rhos" by simp
  have i: "(1::nat) < length ?rhos" by simp
  have s: "fdiv exact_ops
             (real_of_int (\<Sum>(sample, deps)\<leftarrow>example_samples.
                             entry (projr (dep2adj exact_ops example_self (deps ! 1))) 0 1))
             (real (length example_samples)) = 1 / 2"
    by code_simp
  have rv: "rho2var_of exact_ops example_self ?rhos example_samples
              = Inr [(1 / 2, Fin 0), (1 / 10, Fin (1 / 2)), (3 / 10, Fin 0)]"
    by code_simp
  from rho2mean_adj_by_position [OF v d i, where ops = exact_ops and self = example_self] obtain rho2mean_adj mean_adj where
    a: "rho2mean_adj_of exact_ops example_self ?rhos example_samples = Inr rho2mean_adj"
       "map_of rho2mean_adj (?rhos ! 1) = Some mean_adj"
    and e: "\<forall>r<3. \<forall>c<3. entry mean_adj r c
               = fdiv exact_ops
                   (real_of_int (\<Sum>(sample, deps)\<leftarrow>example_samples.
                                   entry (projr (dep2adj exact_ops example_self (deps ! 1))) r c))
                   (real (length example_samples))"
    and sc: "\<exists>rho2var var. rho2var_of exact_ops example_self ?rhos example_samples = Inr rho2var
               \<and> map_of rho2var (?rhos ! 1) = Some var \<and> adj_var exact_ops mean_adj = Inr var"
    by blast
  have "entry mean_adj 0 1
          = fdiv exact_ops
              (real_of_int (\<Sum>(sample, deps)\<leftarrow>example_samples.
                              entry (projr (dep2adj exact_ops example_self (deps ! 1))) 0 1))
              (real (length example_samples))"
    by (rule e [rule_format]) simp_all
  also note s
  finally have e01: "entry mean_adj 0 1 = 1 / 2" .
  from sc rv have "adj_var exact_ops mean_adj = Inr (Fin (1 / 2))" by auto
  with a e01 v d i show ?thesis by auto
qed

text \<open>
  Claim C8, as stated, has an empty \<^verbatim>\<open>sample2deps\<close> rejected by the precondition check. The
  assertion of line 78 holds vacuously on an empty dict; the call fails later, in \<^verbatim>\<open>reduce\<close>.
\<close>

theorem optimal_reg_empty_counterexample:
  "optimal_reg exact_ops example_self [1 / 10] ([] :: (string \<times> real ndarray list) list) = (Inl TypeError, [])
   \<and> optimal_reg exact_ops example_self [1 / 10] ([] :: (string \<times> real ndarray list) list) \<noteq> (Inl AssertMissing, [])"
  by code_simp

text \<open>
  Claim C8, amended. If some subsample's sequence length differs from \<open>len(rhos)\<close>, the call
  fails with the assertion of line 78 before any computation, with no warning and no output.
  An empty \<^verbatim>\<open>sample2deps\<close> passes that check: the call then fails with \<^verbatim>\<open>TypeError\<close> in
  \<^verbatim>\<open>reduce\<close> when the path is not empty and with \<^verbatim>\<open>IndexError\<close> in \<^verbatim>\<open>rhos[-2]\<close> when it is,
  again with no warning and no output.
\<close>

theorem optimal_reg_precondition:
  "((\<exists>(sample, deps)\<in>set sample2deps. length deps \<noteq> length rhos)
      \<longrightarrow> optimal_reg ops self rhos sample2deps = (Inl AssertMissing, []))
   \<and> optimal_reg ops self rhos [] = (Inl (if rhos = [] then IndexError else TypeError), [])"
proof (intro conjI impI)
  assume "\<exists>(sample, deps)\<in>set sample2deps. length deps \<noteq> length rhos"
  then obtain s deps where "(s, deps) \<in> set sample2deps" "length deps \<noteq> length rhos" by auto
  from rho2mean_adj_of_mismatch [OF this] show "optimal_reg ops self rhos sample2deps = (Inl AssertMissing, [])"
    by (simp add: optimal_reg_def rho2var_of_def)
next
  show "optimal_reg ops self rhos [] = (Inl (if rhos = [] then IndexError else TypeError), [])"
    by (simp add: optimal_reg_def rho2var_of_no_samples select_rho_def)
qed

theorem optimal_reg_precondition_witness:
  "(\<exists>(sample, deps)\<in>set [(''a'', [no_edges])]. length deps \<noteq> length [1 / 10, 1 / 2 :: real])
   \<and> optimal_reg exact_ops example_self [1 / 10, 1 / 2] [(''a'', [no_edges])] = (Inl AssertMissing, [])"
proof -
  have h: "\<exists>(sample, deps)\<in>set [(''a'', [no_edges])]. length deps \<noteq> length [1 / 10, 1 / 2 :: real]"
    by simp
  from optimal_reg_precondition [where sample2deps = "[(''a'', [no_edges])]" and rhos = "[1 / 10, 1 / 2]"
         and ops = exact_ops and self = example_self] h
  show ?thesis by blast
qed

text \<open>
  Claim C10. On a valid input, listing the subsamples of \<^verbatim>\<open>sample2deps\<close> in another order
  changes nothing: \<^verbatim>\<open>optimal_reg\<close> returns the same value, or raises the same exception, and
  issues the same events.
\<close>

theorem optimal_reg_sample_order:
  assumes "valid_input p rhos sample2deps" and "mset sample2deps' = mset sample2deps"
  shows "optimal_reg ops self rhos sample2deps' = optimal_reg ops self rhos sample2deps"
proof -
  have "rho2var_of ops self rhos sample2deps' = rho2var_of ops self rhos sample2deps"
    using assms by (rule rho2var_of_mset)
  then show ?thesis
    unfolding optimal_reg_def by (rule arg_cong)
qed

theorem optimal_reg_sample_order_witness:
  "valid_input 3 [1 / 2, 1 / 10, 3 / 10] example_samples
   \<and> mset (rev example_samples) = mset example_samples
   \<and> optimal_reg exact_ops example_self [1 / 2, 1 / 10, 3 / 10] (rev example_samples)
       = optimal_reg exact_ops example_self [1 / 2, 1 / 10, 3 / 10] example_samples"
proof -
  have v: "valid_input 3 [1 / 2, 1 / 10, 3 / 10] example_samples"
    by (simp add: valid_input_def example_samples_def no_edges_def all_edges_def of_rows_def)
  have m: "mset (rev example_samples) = mset example_samples" by simp
  from optimal_reg_sample_order [OF v m, where ops = exact_ops and self = example_self] v m show ?thesis by blast
qed

end
